theory Spec2Isabelle
  imports Complex_Main
begin

section \<open>Errors and the random variate source\<close>

text \<open>
  The two notebooks are Python programs built on three libraries: Mesa (the agent and
  model base classes, the \<open>RandomActivation\<close> scheduler, the \<open>MultiGrid\<close>), numpy
  (\<open>np.random.binomial\<close>, \<open>np.random.randint\<close>, \<open>np.sqrt\<close>, \<open>np.ceil\<close>) and Python's
  \<open>random\<close> module (\<open>random.choice\<close>, and \<open>random.shuffle\<close> inside the scheduler).

  A Python float is a real number here. The division and the addition of the payout pass
  round their result to the nearest double (\<open>fl\<close> below), as the code's do; the subtraction
  of the price in an activation, the product that gives the pool and the numpy functions
  \<open>sqrt\<close> and \<open>ceil\<close> are taken exact: their rounding bears on no statement below.
  Every exception that the programs can meet is a value of \<open>error\<close>; a computation that can
  raise returns \<open>error + 'a\<close>, with \<open>Inl\<close> for the exception.
\<close>

datatype error = ZeroDivisionError | IndexError | ValueError | AttributeError | OutOfBounds

text \<open>
  The pseudo-random generators are global state of the libraries. Here the state is an
  explicit value of an arbitrary type \<open>'g\<close>, and the four draws the programs use are the
  fields of a record of functions: each takes the generator state and returns the drawn
  value with the next state. Nothing is assumed about them beyond what a theorem states.

  \<^item> \<open>np_binomial n p\<close> is the draw behind \<open>np.random.binomial(n, p)\<close>;
  \<^item> \<open>np_randint low high\<close> is the draw behind \<open>np.random.randint(low, high)\<close>, on
    integer bounds;
  \<^item> \<open>py_choice xs\<close> is the draw behind \<open>random.choice(xs)\<close> on a list of cells;
  \<^item> \<open>py_shuffle n\<close> is the draw behind \<open>random.shuffle\<close> on a list of length \<open>n\<close>:
    it returns the new order as a list of old indices.
\<close>

record 'g variate_source =
  np_binomial :: "nat \<Rightarrow> real \<Rightarrow> 'g \<Rightarrow> nat \<times> 'g"
  np_randint :: "int \<Rightarrow> int \<Rightarrow> 'g \<Rightarrow> int \<times> 'g"
  py_choice :: "(int \<times> int) list \<Rightarrow> 'g \<Rightarrow> (int \<times> int) \<times> 'g"
  py_shuffle :: "nat \<Rightarrow> 'g \<Rightarrow> nat list \<times> 'g"

text \<open>Modelled from the spec: the Random Variate Source rejects a probability outside
  \<open>[0, 1]\<close> (numpy is not in the repository; its \<open>np.random.binomial(n, p)\<close> raises
  \<open>ValueError\<close> then).\<close>

definition np_random_binomial ::
  "'g variate_source \<Rightarrow> nat \<Rightarrow> real \<Rightarrow> 'g \<Rightarrow> error + (nat \<times> 'g)" where
  "np_random_binomial S n p g =
     (if p < 0 \<or> 1 < p then Inl ValueError else Inr (np_binomial S n p g))"

text \<open>Modelled from the spec: the Scheduler "computes a fresh random permutation of all
  registered agents" (Mesa's \<open>RandomActivation\<close> is not in the repository; it reorders
  \<open>schedule.agents\<close> in place with \<open>random.shuffle\<close>). A source that follows its contract
  returns a permutation of the indices \<open>0..<n\<close>.\<close>

definition random_shuffle :: "'g variate_source \<Rightarrow> 'a list \<Rightarrow> 'g \<Rightarrow> 'a list \<times> 'g" where
  "random_shuffle S xs g =
     (let (p, g') = py_shuffle S (length xs) g in (map (\<lambda>i. xs ! i) p, g'))"

definition shuffle_ok :: "'g variate_source \<Rightarrow> bool" where
  "shuffle_ok S \<longleftrightarrow>
     (\<forall>n g. distinct (fst (py_shuffle S n g)) \<and> set (fst (py_shuffle S n g)) = {0..<n})"

section \<open>The stock-predictor model\<close>

text \<open>
  Mesa's \<open>Agent\<close> gives every agent its \<open>unique_id\<close>; \<open>StockPredictor\<close> adds the earnings
  and the last guess (\<open>None\<close> before the first activation). Mesa's scheduler keeps the
  agents in a list, \<open>schedule.agents\<close>; both models have the field \<open>number_agents\<close>.
\<close>

record agent =
  unique_id :: nat

record StockPredictor = agent +
  earnings :: real
  guess :: "nat option"

record 'a abm_model =
  number_agents :: nat
  agents :: "'a list"

record StockPredicterModel = "StockPredictor abm_model" +
  stock_price :: real
  pool :: real
  stock_market :: "nat option"

definition StockPredictor_init :: "nat \<Rightarrow> StockPredictor" where
  "StockPredictor_init i = \<lparr>unique_id = i, earnings = 0, guess = None\<rparr>"

text \<open>
  \<open>StockPredicterModel.__init__(self, N)\<close>: the only argument is \<open>N\<close>; the loop over
  \<open>range(N)\<close> appends one agent per index to the schedule.
\<close>

definition StockPredicterModel_init :: "nat \<Rightarrow> StockPredicterModel" where
  "StockPredicterModel_init N =
     \<lparr>number_agents = N, agents = map StockPredictor_init [0..<N],
      stock_price = 1, pool = 0, stock_market = None\<rparr>"

text \<open>
  The constructor as the specification words it, with the unit price an argument: compared
  with \<open>StockPredicterModel_init\<close> below.
\<close>

definition spec_StockPredicterModel_init :: "nat \<Rightarrow> real \<Rightarrow> StockPredicterModel" where
  "spec_StockPredicterModel_init N unit_price =
     \<lparr>number_agents = N, agents = map StockPredictor_init [0..<N],
      stock_price = unit_price, pool = 0, stock_market = None\<rparr>"

text \<open>
  \<open>StockPredictor.step\<close>: a fresh guess, then the price is paid. The second argument is
  the model the agent belongs to (\<open>self.model\<close>), read for its \<open>stock_price\<close>.
\<close>

definition StockPredictor_step ::
  "'g variate_source \<Rightarrow> StockPredicterModel \<Rightarrow> StockPredictor \<Rightarrow> 'g
     \<Rightarrow> error + (StockPredictor \<times> 'g)" where
  "StockPredictor_step S m a g =
     (case np_random_binomial S 1 (1/2) g of
        Inl e \<Rightarrow> Inl e
      | Inr (b, g') \<Rightarrow>
          Inr (a\<lparr>guess := Some b, earnings := earnings a - stock_price m\<rparr>, g'))"

text \<open>Modelled from the spec: \<open>Scheduler.step()\<close> (Mesa's \<open>RandomActivation.step\<close>, called
  as \<open>self.schedule.step()\<close>, is not in the repository): after the fresh permutation it
  "invokes each agent's step() in that order, synchronously, completing all activations
  before returning". \<open>activate_all\<close> is that loop over the agents, here for the
  stock-predictor agents, whose activation changes the agent only.\<close>

fun activate_all ::
  "'g variate_source \<Rightarrow> StockPredicterModel \<Rightarrow> StockPredictor list \<Rightarrow> 'g
     \<Rightarrow> error + (StockPredictor list \<times> 'g)" where
  "activate_all S m [] g = Inr ([], g)"
| "activate_all S m (a # as) g =
     (case StockPredictor_step S m a g of
        Inl e \<Rightarrow> Inl e
      | Inr (a', g1) \<Rightarrow>
          (case activate_all S m as g1 of
             Inl e \<Rightarrow> Inl e
           | Inr (as', g2) \<Rightarrow> Inr (a' # as', g2)))"

definition schedule_step ::
  "'g variate_source \<Rightarrow> StockPredicterModel \<Rightarrow> 'g \<Rightarrow> error + (StockPredicterModel \<times> 'g)" where
  "schedule_step S m g =
     (let (as, g1) = random_shuffle S (agents m) g
      in case activate_all S m as g1 of
           Inl e \<Rightarrow> Inl e
         | Inr (as', g2) \<Rightarrow> Inr (m\<lparr>agents := as'\<rparr>, g2))"

text \<open>
  Python's \<open>float\<close> is the IEEE 754 binary64 format, and \<open>/\<close> and \<open>+\<close> on floats return
  the double nearest to the exact result, ties to the even significand. \<open>ilog2 x\<close> is the
  binary exponent \<open>\<lfloor>log\<^sub>2 x\<rfloor>\<close> of a positive \<open>x\<close>; \<open>round_even\<close> rounds to the nearest
  integer, ties to even; \<open>fl x\<close> is \<open>x\<close> rounded to 53 significant bits at its exponent, or
  to a multiple of \<open>2\<^sup>-\<^sup>1\<^sup>0\<^sup>7\<^sup>4\<close> below the normal range. Overflow to infinity (a result of
  \<open>2\<^sup>1\<^sup>0\<^sup>2\<^sup>4\<close> or more) is not modelled.
\<close>

function ilog2 :: "real \<Rightarrow> int" where
  "ilog2 x =
     (if x \<le> 0 then 0
      else if 2 \<le> x then ilog2 (x / 2) + 1
      else if x < 1 then ilog2 (2 * x) - 1
      else 0)"
  by pat_completeness auto
termination
proof (relation "measure (\<lambda>x. nat \<bar>\<lfloor>log 2 x\<rfloor>\<bar>)")
  show "wf (measure (\<lambda>x. nat \<bar>\<lfloor>log 2 x\<rfloor>\<bar>))" by simp
next
  fix x :: real
  assume x: "\<not> x \<le> 0" "2 \<le> x"
  then have "1 \<le> \<lfloor>log 2 x\<rfloor>"
    by (simp add: le_floor_iff le_log_iff)
  moreover have "\<lfloor>log 2 (x / 2)\<rfloor> = \<lfloor>log 2 x\<rfloor> - 1"
    using x by (simp add: log_divide)
  ultimately show "(x / 2, x) \<in> measure (\<lambda>x. nat \<bar>\<lfloor>log 2 x\<rfloor>\<bar>)"
    by simp
next
  fix x :: real
  assume x: "\<not> x \<le> 0" "\<not> 2 \<le> x" "x < 1"
  then have "log 2 x < 0" by simp
  then have "\<lfloor>log 2 x\<rfloor> \<le> - 1" by (simp add: floor_le_iff)
  moreover have "\<lfloor>log 2 (2 * x)\<rfloor> = \<lfloor>log 2 x\<rfloor> + 1"
    using x by (simp add: log_mult)
  ultimately show "(2 * x, x) \<in> measure (\<lambda>x. nat \<bar>\<lfloor>log 2 x\<rfloor>\<bar>)"
    by simp
qed

declare ilog2.simps [simp del]

definition round_even :: "real \<Rightarrow> int" where
  "round_even y =
     (let f = \<lfloor>y\<rfloor>; d = y - of_int f
      in if d < 1/2 then f else if 1/2 < d then f + 1 else if even f then f else f + 1)"

definition fl :: "real \<Rightarrow> real" where
  "fl x =
     (if x = 0 then 0
      else let e = max (ilog2 \<bar>x\<bar>) (- 1022)
           in of_int (round_even (x * 2 powi (52 - e))) * 2 powi (e - 52))"

text \<open>
  \<open>_count_correct_agents\<close> and \<open>_payout\<close>. \<open>self.pool / number_correct\<close> is a float
  division, which raises on a zero divisor, and \<open>agent.earnings += pool_share\<close> a float
  addition.
\<close>

definition count_correct_agents :: "StockPredicterModel \<Rightarrow> nat" where
  "count_correct_agents m = length (filter (\<lambda>a. guess a = stock_market m) (agents m))"

definition py_truediv :: "real \<Rightarrow> real \<Rightarrow> error + real" where
  "py_truediv a b = (if b = 0 then Inl ZeroDivisionError else Inr (fl (a / b)))"

definition payout :: "StockPredicterModel \<Rightarrow> error + StockPredicterModel" where
  "payout m =
     (let number_correct = count_correct_agents m
      in case (if number_correct > 0 then py_truediv (pool m) (real number_correct)
               else Inr 0) of
           Inl e \<Rightarrow> Inl e
         | Inr pool_share \<Rightarrow>
             Inr (m\<lparr>agents :=
                     map (\<lambda>a. if guess a = stock_market m
                               then a\<lparr>earnings := fl (earnings a + pool_share)\<rparr> else a)
                         (agents m)\<rparr>))"

text \<open>
  \<open>StockPredicterModel.step\<close>. \<open>activated\<close> is the step up to and including
  \<open>self.schedule.step()\<close>, that is the state the payout pass starts from.
\<close>

definition activated ::
  "'g variate_source \<Rightarrow> StockPredicterModel \<Rightarrow> 'g \<Rightarrow> error + (StockPredicterModel \<times> 'g)" where
  "activated S m g =
     (let m1 = m\<lparr>pool := real (number_agents m) * stock_price m\<rparr>
      in case np_random_binomial S 1 (1/2) g of
           Inl e \<Rightarrow> Inl e
         | Inr (outcome, g1) \<Rightarrow> schedule_step S (m1\<lparr>stock_market := Some outcome\<rparr>) g1)"

definition StockPredicterModel_step ::
  "'g variate_source \<Rightarrow> StockPredicterModel \<Rightarrow> 'g \<Rightarrow> error + (StockPredicterModel \<times> 'g)" where
  "StockPredicterModel_step S m g =
     (case activated S m g of
        Inl e \<Rightarrow> Inl e
      | Inr (m3, g2) \<Rightarrow>
          (case payout m3 of Inl e \<Rightarrow> Inl e | Inr m4 \<Rightarrow> Inr (m4, g2)))"

text \<open>
  The share each correct agent receives, as \<open>_payout\<close> computes it; and the run loop of
  the notebook, \<open>for i in range(number_steps): model.step()\<close>, which here also records the
  order in which the agents were activated in each step (the order of \<open>schedule.agents\<close>
  after the shuffle of that step).
\<close>

definition pool_share :: "StockPredicterModel \<Rightarrow> real" where
  "pool_share m = (if 0 < count_correct_agents m
                   then fl (pool m / real (count_correct_agents m)) else 0)"

fun StockPredicterModel_run ::
  "'g variate_source \<Rightarrow> nat \<Rightarrow> StockPredicterModel \<Rightarrow> 'g
     \<Rightarrow> error + ((nat list list \<times> StockPredicterModel) \<times> 'g)" where
  "StockPredicterModel_run S 0 m g = Inr (([], m), g)"
| "StockPredicterModel_run S (Suc n) m g =
     (case StockPredicterModel_step S m g of
        Inl e \<Rightarrow> Inl e
      | Inr (m', g') \<Rightarrow>
          (case StockPredicterModel_run S n m' g' of
             Inl e \<Rightarrow> Inl e
           | Inr ((orders, m''), g'') \<Rightarrow>
               Inr ((map unique_id (agents m') # orders, m''), g'')))"

section \<open>The spatial grid\<close>

text \<open>
  Mesa's \<open>MultiGrid\<close> is a library class, not part of the repository. The grid below
  follows the specification of the Spatial Grid component: width, height, the wrap-around
  flag and, for every cell, the set of identifiers of the agents in it.
\<close>

text \<open>Modelled from the spec: the Grid data model (Mesa's \<open>MultiGrid\<close> is not in the
  repository): "a mapping from cell coordinate (x,y) to a set of agent identifiers".\<close>

record MultiGrid =
  width :: int
  height :: int
  torus :: bool
  cells :: "int \<times> int \<Rightarrow> nat set"

text \<open>Modelled from the spec: \<open>MultiGrid(width, height, torus)\<close> (Mesa's constructor is not in
  the repository): a grid with every cell empty.\<close>

definition MultiGrid_init :: "int \<Rightarrow> int \<Rightarrow> bool \<Rightarrow> MultiGrid" where
  "MultiGrid_init w h t = \<lparr>width = w, height = h, torus = t, cells = (\<lambda>c. {})\<rparr>"

text \<open>Modelled from the spec: the bounds \<open>0 \<le> x < W\<close>, \<open>0 \<le> y < H\<close> of a cell coordinate
  (Mesa's check is not in the repository).\<close>

definition out_of_bounds :: "MultiGrid \<Rightarrow> int \<times> int \<Rightarrow> bool" where
  "out_of_bounds G p \<longleftrightarrow> fst p < 0 \<or> width G \<le> fst p \<or> snd p < 0 \<or> height G \<le> snd p"

text \<open>Modelled from the spec: validation of a move target (Mesa's \<open>torus_adj\<close> is not in the
  repository): on a toroidal grid "coordinates wrap modulo W and H" and \<open>OutOfBounds\<close> is
  never raised; on a bounded grid a target outside the extent is \<open>OutOfBounds\<close>.\<close>

definition torus_adj :: "MultiGrid \<Rightarrow> int \<times> int \<Rightarrow> error + (int \<times> int)" where
  "torus_adj G p =
     (if \<not> out_of_bounds G p then Inr p
      else if torus G then Inr (fst p mod width G, snd p mod height G)
      else Inl OutOfBounds)"

text \<open>
  \<open>Traveler\<close> adds the travel probability to Mesa's agent. The grid records the agent's
  position in the attribute \<open>pos\<close>, absent until the agent is placed.
\<close>

record Traveler = agent +
  travel_prob :: real
  pos :: "(int \<times> int) option"

record TravelModel = "Traveler abm_model" +
  grid :: MultiGrid

text \<open>Modelled from the spec: \<open>place_agent(agent_id, position)\<close> (Mesa's method is not in the
  repository): "position must satisfy \<open>0 \<le> x < W\<close>, \<open>0 \<le> y < H\<close>; fails with OutOfBounds
  otherwise; adds agent_id to the cell's occupant set", and records the position.\<close>

definition place_agent ::
  "MultiGrid \<Rightarrow> Traveler \<Rightarrow> int \<times> int \<Rightarrow> error + (MultiGrid \<times> Traveler)" where
  "place_agent G a p =
     (if out_of_bounds G p then Inl OutOfBounds
      else Inr (G\<lparr>cells := (cells G)(p := insert (unique_id a) (cells G p))\<rparr>,
                a\<lparr>pos := Some p\<rparr>))"

text \<open>Modelled from the spec: \<open>move_agent(agent_id, new_position)\<close> (Mesa's method is not in
  the repository): "removes agent_id from its current cell's occupant set, validates
  new_position bounds, inserts into new cell's occupant set, updates the agent's recorded
  position", with no change when it fails. An agent that was never placed has no \<open>pos\<close>
  attribute.\<close>

definition move_agent ::
  "MultiGrid \<Rightarrow> Traveler \<Rightarrow> int \<times> int \<Rightarrow> error + (MultiGrid \<times> Traveler)" where
  "move_agent G a p =
     (case pos a of
        None \<Rightarrow> Inl AttributeError
      | Some old \<Rightarrow>
          (case torus_adj G p of
             Inl e \<Rightarrow> Inl e
           | Inr new \<Rightarrow>
               (let removed = (cells G)(old := cells G old - {unique_id a})
                in Inr (G\<lparr>cells := removed(new := insert (unique_id a) (removed new))\<rparr>,
                        a\<lparr>pos := Some new\<rparr>))))"

text \<open>Modelled from the spec: the offsets of a neighbourhood (Mesa's \<open>get_neighborhood\<close> is
  not in the repository): "the 8 Moore-neighborhood cells (or 4 for von Neumann)", that is
  \<open>-1, 0, 1\<close> in each direction without the diagonals when \<open>moore\<close> is false, and without
  \<open>(0, 0)\<close> unless \<open>include_center\<close>.\<close>

definition offsets :: "bool \<Rightarrow> bool \<Rightarrow> (int \<times> int) list" where
  "offsets moore include_center =
     filter (\<lambda>(dx, dy). (include_center \<or> (dx, dy) \<noteq> (0, 0)) \<and> (moore \<or> dx = 0 \<or> dy = 0))
       [(-1, -1), (0, -1), (1, -1), (-1, 0), (0, 0), (1, 0), (-1, 1), (0, 1), (1, 1)]"

text \<open>Modelled from the spec: \<open>neighborhood(position, moore, include_center)\<close> (Mesa's
  \<open>get_neighborhood\<close> is not in the repository): the cells at those offsets from the
  position; "if the grid is toroidal, coordinates wrap modulo W and H; if bounded,
  out-of-range neighbors are simply omitted". The result is a set of positions, so a cell
  reached by two offsets is listed once.\<close>

definition get_neighborhood ::
  "MultiGrid \<Rightarrow> int \<times> int \<Rightarrow> bool \<Rightarrow> bool \<Rightarrow> (int \<times> int) list" where
  "get_neighborhood G p moore include_center =
     remdups
       (map (\<lambda>(dx, dy). if torus G
                         then ((fst p + dx) mod width G, (snd p + dy) mod height G)
                         else (fst p + dx, snd p + dy))
          (filter (\<lambda>(dx, dy). torus G \<or> \<not> out_of_bounds G (fst p + dx, snd p + dy))
             (offsets moore include_center)))"

section \<open>The random-walk model\<close>

text \<open>
  \<open>random.choice(seq)\<close> is Python's library function: it raises \<open>IndexError\<close> on an empty
  sequence, and a source that follows its contract picks an element of the sequence.
\<close>

definition random_choice ::
  "'g variate_source \<Rightarrow> (int \<times> int) list \<Rightarrow> 'g \<Rightarrow> error + ((int \<times> int) \<times> 'g)" where
  "random_choice S xs g = (if xs = [] then Inl IndexError else Inr (py_choice S xs g))"


text \<open>
  \<open>Traveler._travel\<close>, \<open>Traveler.move\<close> and \<open>Traveler.step\<close>. The agent is the \<open>i\<close>-th
  element of \<open>schedule.agents\<close>; the model is the one the agent belongs to, whose grid the
  move updates.
\<close>

definition travel ::
  "'g variate_source \<Rightarrow> TravelModel \<Rightarrow> nat \<Rightarrow> 'g \<Rightarrow> error + (TravelModel \<times> 'g)" where
  "travel S m i g =
     (case pos (agents m ! i) of
        None \<Rightarrow> Inl AttributeError
      | Some p \<Rightarrow>
          (let possible_steps = get_neighborhood (grid m) p True False
           in case random_choice S possible_steps g of
                Inl e \<Rightarrow> Inl e
              | Inr (new_position, g') \<Rightarrow>
                  (case move_agent (grid m) (agents m ! i) new_position of
                     Inl e \<Rightarrow> Inl e
                   | Inr (G', a') \<Rightarrow>
                       Inr (m\<lparr>grid := G', agents := (agents m)[i := a']\<rparr>, g'))))"

definition move ::
  "'g variate_source \<Rightarrow> TravelModel \<Rightarrow> nat \<Rightarrow> 'g \<Rightarrow> error + (TravelModel \<times> 'g)" where
  "move S m i g =
     (case np_random_binomial S 1 (travel_prob (agents m ! i)) g of
        Inl e \<Rightarrow> Inl e
      | Inr (b, g1) \<Rightarrow> if b \<noteq> 0 then travel S m i g1 else Inr (m, g1))"

definition Traveler_step ::
  "'g variate_source \<Rightarrow> TravelModel \<Rightarrow> nat \<Rightarrow> 'g \<Rightarrow> error + (TravelModel \<times> 'g)" where
  "Traveler_step S m i g = move S m i g"

text \<open>
  \<open>TravelModel.step\<close> is \<open>self.schedule.step()\<close>, the scheduler's step as above: shuffle,
  then activate the agents in the new order of the list. \<open>activate_travelers\<close> is the loop
  for the random-walk agents, whose activation changes the model's grid as well.
\<close>

fun activate_travelers ::
  "'g variate_source \<Rightarrow> nat list \<Rightarrow> TravelModel \<Rightarrow> 'g \<Rightarrow> error + (TravelModel \<times> 'g)" where
  "activate_travelers S [] m g = Inr (m, g)"
| "activate_travelers S (i # is) m g =
     (case Traveler_step S m i g of
        Inl e \<Rightarrow> Inl e
      | Inr (m', g') \<Rightarrow> activate_travelers S is m' g')"

definition TravelModel_step ::
  "'g variate_source \<Rightarrow> TravelModel \<Rightarrow> 'g \<Rightarrow> error + (TravelModel \<times> 'g)" where
  "TravelModel_step S m g =
     (let (as, g1) = random_shuffle S (agents m) g
      in activate_travelers S [0..<length as] (m\<lparr>agents := as\<rparr>) g1)"

text \<open>
  \<open>np.random.randint(low, high)\<close> is numpy's library function, called here with float
  bounds. numpy converts each bound with Python's \<open>int()\<close>, which truncates toward zero
  (\<open>int(-0.5) = 0\<close>, \<open>int(3.5) = 3\<close>), and raises \<open>ValueError\<close> when the converted bounds
  are not in order; the specification has the same contract, an integer in \<open>[low, high)\<close>,
  rejected for \<open>low \<ge> high\<close>. A source that follows its contract draws from
  \<open>low \<le> x < high\<close>.
\<close>

definition py_int :: "real \<Rightarrow> int" where
  "py_int r = (if 0 \<le> r then \<lfloor>r\<rfloor> else \<lceil>r\<rceil>)"

definition np_random_randint ::
  "'g variate_source \<Rightarrow> real \<Rightarrow> real \<Rightarrow> 'g \<Rightarrow> error + (int \<times> 'g)" where
  "np_random_randint S low high g =
     (let ilow = py_int low; ihigh = py_int high
      in if ilow \<ge> ihigh then Inl ValueError else Inr (np_randint S ilow ihigh g))"

definition randint_ok :: "'g variate_source \<Rightarrow> bool" where
  "randint_ok S \<longleftrightarrow>
     (\<forall>low high g. low < high \<longrightarrow>
        low \<le> fst (np_randint S low high g) \<and> fst (np_randint S low high g) < high)"

text \<open>
  \<open>TravelModel._init_travelers\<close>. \<open>initial_dim\<close> is \<open>np.ceil(np.sqrt(self.number_agents))\<close>;
  \<open>draw_position\<close> is the body of the loop up to the two draws; \<open>init_travelers_loop\<close> is
  the loop over \<open>schedule.agents\<close>.
\<close>

definition initial_dim :: "nat \<Rightarrow> real" where
  "initial_dim N = of_int \<lceil>sqrt (real N)\<rceil>"

definition draw_position ::
  "'g variate_source \<Rightarrow> MultiGrid \<Rightarrow> real \<Rightarrow> 'g \<Rightarrow> error + ((int \<times> int) \<times> 'g)" where
  "draw_position S G d g =
     (let center_x = of_int (width G) / 2;
          center_y = of_int (height G) / 2
      in case np_random_randint S (center_x - d) (center_x + d) g of
           Inl e \<Rightarrow> Inl e
         | Inr (x, g1) \<Rightarrow>
             (case np_random_randint S (center_y - d) (center_y + d) g1 of
                Inl e \<Rightarrow> Inl e
              | Inr (y, g2) \<Rightarrow> Inr ((x, y), g2)))"

fun init_travelers_loop ::
  "'g variate_source \<Rightarrow> real \<Rightarrow> nat list \<Rightarrow> TravelModel \<Rightarrow> 'g
     \<Rightarrow> error + (TravelModel \<times> 'g)" where
  "init_travelers_loop S d [] m g = Inr (m, g)"
| "init_travelers_loop S d (i # is) m g =
     (case draw_position S (grid m) d g of
        Inl e \<Rightarrow> Inl e
      | Inr (p, g1) \<Rightarrow>
          (case place_agent (grid m) (agents m ! i) p of
             Inl e \<Rightarrow> Inl e
           | Inr (G', a') \<Rightarrow>
               init_travelers_loop S d is (m\<lparr>grid := G', agents := (agents m)[i := a']\<rparr>) g1))"

definition init_travelers ::
  "'g variate_source \<Rightarrow> TravelModel \<Rightarrow> 'g \<Rightarrow> error + (TravelModel \<times> 'g)" where
  "init_travelers S m g =
     init_travelers_loop S (initial_dim (number_agents m)) [0..<length (agents m)] m g"

text \<open>
  \<open>TravelModel.__init__\<close>. \<open>travel_probs[int(...)]\<close> indexes a tuple and raises
  \<open>IndexError\<close> past its end; \<open>create_travelers\<close> is the loop over \<open>range(N)\<close>.
\<close>

definition py_index :: "'a list \<Rightarrow> nat \<Rightarrow> error + 'a" where
  "py_index xs i = (if i < length xs then Inr (xs ! i) else Inl IndexError)"

fun create_travelers ::
  "'g variate_source \<Rightarrow> real list \<Rightarrow> nat list \<Rightarrow> 'g \<Rightarrow> error + (Traveler list \<times> 'g)" where
  "create_travelers S travel_probs [] g = Inr ([], g)"
| "create_travelers S travel_probs (i # is) g =
     (case np_random_binomial S 1 (1/2) g of
        Inl e \<Rightarrow> Inl e
      | Inr (b, g1) \<Rightarrow>
          (case py_index travel_probs b of
             Inl e \<Rightarrow> Inl e
           | Inr prob \<Rightarrow>
               (case create_travelers S travel_probs is g1 of
                  Inl e \<Rightarrow> Inl e
                | Inr (as, g2) \<Rightarrow>
                    Inr (\<lparr>unique_id = i, travel_prob = prob, pos = None\<rparr> # as, g2))))"

definition TravelModel_init ::
  "'g variate_source \<Rightarrow> nat \<Rightarrow> real list \<Rightarrow> int \<Rightarrow> int \<Rightarrow> 'g
     \<Rightarrow> error + (TravelModel \<times> 'g)" where
  "TravelModel_init S N travel_probs w h g =
     (case create_travelers S travel_probs [0..<N] g of
        Inl e \<Rightarrow> Inl e
      | Inr (as, g1) \<Rightarrow>
          init_travelers S
            \<lparr>number_agents = N, agents = as, grid = MultiGrid_init w h True\<rparr> g1)"

text \<open>The run loop of the notebook, with the activation order of each step recorded.\<close>

fun TravelModel_run ::
  "'g variate_source \<Rightarrow> nat \<Rightarrow> TravelModel \<Rightarrow> 'g
     \<Rightarrow> error + ((nat list list \<times> TravelModel) \<times> 'g)" where
  "TravelModel_run S 0 m g = Inr (([], m), g)"
| "TravelModel_run S (Suc n) m g =
     (case TravelModel_step S m g of
        Inl e \<Rightarrow> Inl e
      | Inr (m', g') \<Rightarrow>
          (case TravelModel_run S n m' g' of
             Inl e \<Rightarrow> Inl e
           | Inr ((orders, m''), g'') \<Rightarrow>
               Inr ((map unique_id (agents m') # orders, m''), g'')))"

section \<open>Scripted variate sources\<close>

text \<open>
  Two concrete sources for running the models on fixed draws. The generator state of
  \<open>scripted\<close> is the list of draws still to come: a binomial draw returns the next entry,
  \<open>randint\<close> and \<open>choice\<close> reduce it into their range, a shuffle keeps the order; on an
  empty script every draw is the least one. \<open>forced\<close> has no state: every binomial draw is
  1 and every choice is the cell \<open>(1, 1)\<close>.
\<close>

definition scripted :: "nat list variate_source" where
  "scripted =
     \<lparr>np_binomial = (\<lambda>n p g. case g of [] \<Rightarrow> (0, []) | x # xs \<Rightarrow> (x, xs)),
      np_randint = (\<lambda>low high g. case g of [] \<Rightarrow> (low, [])
                     | x # xs \<Rightarrow> (low + int x mod (high - low), xs)),
      py_choice = (\<lambda>cs g. case g of [] \<Rightarrow> (hd cs, [])
                     | x # xs \<Rightarrow> (cs ! (x mod length cs), xs)),
      py_shuffle = (\<lambda>n g. ([0..<n], g))\<rparr>"


text \<open>
  \<open>ceil_sqrt\<close> computes \<open>\<lceil>\<surd>N\<rceil>\<close> by counting the naturals whose square is below \<open>N\<close>; it is
  proved equal to \<open>initial_dim\<close> below and used to evaluate it.
\<close>

definition ceil_sqrt :: "nat \<Rightarrow> nat" where
  "ceil_sqrt N = length (filter (\<lambda>k. k * k < N) [0..<N])"

text \<open>
  End-to-end scenario B: four agents, unit price 1, market outcome 1, guesses 1, 1, 0, 0.
  \<open>scenario_B_activated\<close> is the model after the activation phase of that step;
  \<open>scenario_none_correct\<close> is the same with all four guesses 0;
  \<open>scenario_C_activated\<close> is the model after the activation phase of the first step of
  five agents of which three guess the outcome. \<open>payout_increases\<close> lists, agent by
  agent, by how much the payout pass raises the earnings.
\<close>

definition scenario_B_activated :: StockPredicterModel where
  "scenario_B_activated =
     \<lparr>number_agents = 4,
      agents = [\<lparr>unique_id = 0, earnings = - 1, guess = Some 1\<rparr>,
                \<lparr>unique_id = 1, earnings = - 1, guess = Some 1\<rparr>,
                \<lparr>unique_id = 2, earnings = - 1, guess = Some 0\<rparr>,
                \<lparr>unique_id = 3, earnings = - 1, guess = Some 0\<rparr>],
      stock_price = 1, pool = 4, stock_market = Some 1\<rparr>"

definition scenario_C_activated :: StockPredicterModel where
  "scenario_C_activated =
     \<lparr>number_agents = 5,
      agents = [\<lparr>unique_id = 0, earnings = - 1, guess = Some 1\<rparr>,
                \<lparr>unique_id = 1, earnings = - 1, guess = Some 1\<rparr>,
                \<lparr>unique_id = 2, earnings = - 1, guess = Some 1\<rparr>,
                \<lparr>unique_id = 3, earnings = - 1, guess = Some 0\<rparr>,
                \<lparr>unique_id = 4, earnings = - 1, guess = Some 0\<rparr>],
      stock_price = 1, pool = 5, stock_market = Some 1\<rparr>"

definition payout_increases :: "StockPredicterModel \<Rightarrow> error + real list" where
  "payout_increases m =
     (case payout m of
        Inl e \<Rightarrow> Inl e
      | Inr m' \<Rightarrow> Inr (map (\<lambda>(a', a). earnings a' - earnings a) (zip (agents m') (agents m))))"


text \<open>
  End-to-end scenario A: a 10 by 10 toroidal grid with one agent at \<open>(0, 0)\<close> whose travel
  probability is 1.
\<close>

definition scenario_A :: TravelModel where
  "scenario_A =
     \<lparr>number_agents = 1,
      agents = [\<lparr>unique_id = 0, travel_prob = 1, pos = Some (0, 0)\<rparr>],
      grid = \<lparr>width = 10, height = 10, torus = True, cells = (\<lambda>c. {})((0, 0) := {0})\<rparr>\<rparr>"

text \<open>
  The square the initial positions are drawn from: the bounds that \<open>_init_travelers\<close> passes
  to \<open>np.random.randint\<close>, after numpy's conversion to integers. \<open>positions\<close> reads the
  recorded positions off the result of a construction or a step.
\<close>

definition in_initial_square :: "MultiGrid \<Rightarrow> real \<Rightarrow> int \<times> int \<Rightarrow> bool" where
  "in_initial_square G d p \<longleftrightarrow>
     py_int (of_int (width G) / 2 - d) \<le> fst p \<and> fst p < py_int (of_int (width G) / 2 + d) \<and>
     py_int (of_int (height G) / 2 - d) \<le> snd p \<and> snd p < py_int (of_int (height G) / 2 + d)"

definition positions :: "error + (TravelModel \<times> 'g) \<Rightarrow> error + (int \<times> int) option list" where
  "positions r = (case r of Inl e \<Rightarrow> Inl e | Inr (m, g) \<Rightarrow> Inr (map pos (agents m)))"

text \<open>
  Consistency of the grid with the agents' recorded positions: the identifiers are distinct;
  an agent is in the occupant set of a cell exactly when that cell is its recorded position
  (so an agent with a position is in exactly one occupant set, and an agent without one in
  none); a recorded position is a cell of the grid; every occupant is an agent of the
  model. \<open>well_formed\<close> adds what the construction establishes for good: every agent is
  placed, every travel probability is a probability, the grid is toroidal.
\<close>

definition grid_consistent :: "TravelModel \<Rightarrow> bool" where
  "grid_consistent m \<longleftrightarrow>
     distinct (map unique_id (agents m)) \<and>
     (\<forall>a \<in> set (agents m). \<forall>q. unique_id a \<in> cells (grid m) q \<longleftrightarrow> pos a = Some q) \<and>
     (\<forall>a \<in> set (agents m). \<forall>q. pos a = Some q \<longrightarrow> \<not> out_of_bounds (grid m) q) \<and>
     (\<forall>q. \<forall>k \<in> cells (grid m) q. k \<in> unique_id ` set (agents m))"

definition well_formed :: "TravelModel \<Rightarrow> bool" where
  "well_formed m \<longleftrightarrow>
     grid_consistent m \<and> torus (grid m) \<and>
     (\<forall>a \<in> set (agents m). pos a \<noteq> None \<and> 0 \<le> travel_prob a \<and> travel_prob a \<le> 1)"

text \<open>
  Two runs, each with its own variate source. \<open>same_draws S T R\<close>: from generator states
  related by \<open>R\<close>, every draw of \<open>S\<close> and the same draw of \<open>T\<close> return the same value and
  leave states related by \<open>R\<close> again; so it is for two instances of one generator algorithm
  started from one seed, with \<open>R\<close> the equality of states. \<open>same_outcome R\<close>: two results
  are the same exception, or the same value with generator states related by \<open>R\<close>.
  \<open>counting\<close> is a second scripted source, which also counts the draws made.
\<close>

definition same_draws ::
  "'g variate_source \<Rightarrow> 'h variate_source \<Rightarrow> ('g \<Rightarrow> 'h \<Rightarrow> bool) \<Rightarrow> bool" where
  "same_draws S T R \<longleftrightarrow>
     (\<forall>g h. R g h \<longrightarrow>
        (\<forall>n p. fst (np_binomial S n p g) = fst (np_binomial T n p h)
             \<and> R (snd (np_binomial S n p g)) (snd (np_binomial T n p h))) \<and>
        (\<forall>low high. fst (np_randint S low high g) = fst (np_randint T low high h)
             \<and> R (snd (np_randint S low high g)) (snd (np_randint T low high h))) \<and>
        (\<forall>xs. fst (py_choice S xs g) = fst (py_choice T xs h)
             \<and> R (snd (py_choice S xs g)) (snd (py_choice T xs h))) \<and>
        (\<forall>n. fst (py_shuffle S n g) = fst (py_shuffle T n h)
             \<and> R (snd (py_shuffle S n g)) (snd (py_shuffle T n h))))"

definition same_outcome ::
  "('g \<Rightarrow> 'h \<Rightarrow> bool) \<Rightarrow> error + ('a \<times> 'g) \<Rightarrow> error + ('a \<times> 'h) \<Rightarrow> bool" where
  "same_outcome R r r' \<longleftrightarrow>
     (case r of
        Inl e \<Rightarrow> r' = Inl e
      | Inr (x, g) \<Rightarrow> (case r' of Inl e' \<Rightarrow> False | Inr (x', h) \<Rightarrow> x' = x \<and> R g h))"

definition counting :: "(nat list \<times> nat) variate_source" where
  "counting =
     \<lparr>np_binomial = (\<lambda>n p g. (fst (np_binomial scripted n p (fst g)),
                               snd (np_binomial scripted n p (fst g)), Suc (snd g))),
      np_randint = (\<lambda>low high g. (fst (np_randint scripted low high (fst g)),
                               snd (np_randint scripted low high (fst g)), Suc (snd g))),
      py_choice = (\<lambda>cs g. (fst (py_choice scripted cs (fst g)),
                               snd (py_choice scripted cs (fst g)), Suc (snd g))),
      py_shuffle = (\<lambda>n g. (fst (py_shuffle scripted n (fst g)),
                               snd (py_shuffle scripted n (fst g)), Suc (snd g)))\<rparr>"

section \<open>The stock-predictor model: activation and payout\<close>

lemma np_random_binomial_half:
  "np_random_binomial S n (1/2) g = Inr (np_binomial S n (1/2) g)"
  by (simp add: np_random_binomial_def)

lemma StockPredictor_step_eq:
  "StockPredictor_step S m a g =
     Inr (a\<lparr>guess := Some (fst (np_binomial S 1 (1/2) g)),
             earnings := earnings a - stock_price m\<rparr>,
          snd (np_binomial S 1 (1/2) g))"
  by (simp add: StockPredictor_step_def np_random_binomial_half split: prod.splits)

text \<open>The activation loop never raises: every agent keeps its identifier, pays the price
  and has a guess afterwards.\<close>

lemma activate_all_total:
  "\<exists>as' g'. activate_all S m as g = Inr (as', g')
      \<and> map unique_id as' = map unique_id as
      \<and> map earnings as' = map (\<lambda>a. earnings a - stock_price m) as
      \<and> (\<forall>a \<in> set as'. guess a \<noteq> None)"
proof (induction as arbitrary: g)
  case Nil
  show ?case by simp
next
  case (Cons a as)
  obtain as' g' where "activate_all S m as (snd (np_binomial S 1 (1/2) g)) = Inr (as', g')"
      "map unique_id as' = map unique_id as"
      "map earnings as' = map (\<lambda>a. earnings a - stock_price m) as"
      "\<forall>a \<in> set as'. guess a \<noteq> None"
    using Cons.IH by blast
  then show ?case
    by (simp add: StockPredictor_step_eq)
qed

lemma schedule_step_eq:
  "\<exists>as' g'. schedule_step S m g = Inr (m\<lparr>agents := as'\<rparr>, g')
      \<and> activate_all S m (fst (random_shuffle S (agents m) g))
            (snd (random_shuffle S (agents m) g)) = Inr (as', g')"
  using activate_all_total [of S m "fst (random_shuffle S (agents m) g)"
      "snd (random_shuffle S (agents m) g)"]
  by (auto simp: schedule_step_def split: prod.splits)

lemma activated_total:
  "\<exists>m3 g2. activated S m g = Inr (m3, g2)
      \<and> pool m3 = real (number_agents m) * stock_price m
      \<and> number_agents m3 = number_agents m
      \<and> stock_price m3 = stock_price m
      \<and> stock_market m3 = Some (fst (np_binomial S 1 (1/2) g))"
proof -
  let ?m2 = "m\<lparr>pool := real (number_agents m) * stock_price m,
               stock_market := Some (fst (np_binomial S 1 (1/2) g))\<rparr>"
  obtain as' g' where "schedule_step S ?m2 (snd (np_binomial S 1 (1/2) g))
      = Inr (?m2\<lparr>agents := as'\<rparr>, g')"
    using schedule_step_eq [of S ?m2 "snd (np_binomial S 1 (1/2) g)"] by auto
  then show ?thesis
    by (auto simp: activated_def np_random_binomial_half split: prod.splits)
qed


text \<open>The payout pass never raises: the division is guarded by the count.\<close>

lemma payout_eq:
  "payout m =
     Inr (m\<lparr>agents := map (\<lambda>a. if guess a = stock_market m
                               then a\<lparr>earnings := fl (earnings a + pool_share m)\<rparr> else a)
                         (agents m)\<rparr>)"
  by (simp add: payout_def py_truediv_def pool_share_def Let_def)

lemma scripted_shuffle_ok: "shuffle_ok scripted"
  by (simp add: shuffle_ok_def scripted_def)

subsection \<open>Rounding to the nearest double\<close>

lemma ilog2_eq: "0 < x \<Longrightarrow> ilog2 x = \<lfloor>log 2 x\<rfloor>"
proof (induction x rule: ilog2.induct)
  case (1 x)
  show ?case
  proof (cases "2 \<le> x")
    case True
    then show ?thesis
      using 1 by (subst ilog2.simps) (simp add: log_divide)
  next
    case False
    show ?thesis
    proof (cases "x < 1")
      case True
      then show ?thesis
        using 1 False by (subst ilog2.simps) (simp add: log_mult)
    next
      case ge: False
      then have "\<lfloor>log 2 x\<rfloor> = 0"
        using False 1(3) floor_log_eq_powr_iff [of x 2 0] by simp
      then show ?thesis
        using 1(3) False ge by (subst ilog2.simps) simp
    qed
  qed
qed

lemma round_even_error: "\<bar>of_int (round_even y) - y\<bar> \<le> 1/2"
proof -
  have "of_int \<lfloor>y\<rfloor> \<le> y" "y < of_int \<lfloor>y\<rfloor> + 1" by linarith+
  then show ?thesis
    by (auto simp: round_even_def Let_def)
qed

lemma fl_zero [simp]: "fl 0 = 0"
  by (simp add: fl_def)

lemma powi_ilog2_le: "x \<noteq> 0 \<Longrightarrow> 2 powi (ilog2 \<bar>x\<bar>) \<le> \<bar>x\<bar>"
  using floor_log_eq_powr_iff [of "\<bar>x\<bar>" 2 "ilog2 \<bar>x\<bar>"]
  by (simp add: ilog2_eq powr_real_of_int')

text \<open>The rounding error: half a unit in the last place, that is at most \<open>\<bar>x\<bar> / 2\<^sup>5\<^sup>3\<close> in
  the normal range and \<open>2\<^sup>-\<^sup>1\<^sup>0\<^sup>7\<^sup>5\<close> below it.\<close>

lemma fl_error: "\<bar>fl x - x\<bar> \<le> \<bar>x\<bar> / 2 ^ 53 + 1 / 2 ^ 1075"
proof (cases "x = 0")
  case True
  then show ?thesis by simp
next
  case False
  define e where "e = max (ilog2 \<bar>x\<bar>) (- 1022)"
  define y where "y = x * 2 powi (52 - e)"
  have fx: "fl x = of_int (round_even y) * 2 powi (e - 52)"
    using False by (simp add: fl_def e_def y_def Let_def)
  have "(2::real) powi (52 - e) * 2 powi (e - 52) = 1"
    using power_int_add [of "2::real" "52 - e" "e - 52"] by simp
  then have x: "x = y * 2 powi (e - 52)"
    by (simp add: y_def)
  have "fl x - x = of_int (round_even y) * 2 powi (e - 52) - y * 2 powi (e - 52)"
    using fx x by metis
  then have "fl x - x = (of_int (round_even y) - y) * 2 powi (e - 52)"
    by (simp only: left_diff_distrib)
  then have "\<bar>fl x - x\<bar> = \<bar>of_int (round_even y) - y\<bar> * 2 powi (e - 52)"
    by (simp add: abs_mult)
  also have "\<dots> \<le> 1/2 * 2 powi (e - 52)"
    using round_even_error [of y] by (simp add: mult_right_mono)
  also have "\<dots> = 2 powi e / 2 ^ 53"
    using power_int_diff [of "2::real" e 52] by simp
  finally have b: "\<bar>fl x - x\<bar> \<le> 2 powi e / 2 ^ 53" .
  show ?thesis
  proof (cases "ilog2 \<bar>x\<bar> \<le> - 1022")
    case True
    then have "e = - 1022" by (simp add: e_def)
    then have "(2::real) powi e / 2 ^ 53 = 1 / (2 ^ 1022 * 2 ^ 53)"
      by (simp add: power_int_minus divide_simps)
    also have "\<dots> = 1 / 2 ^ 1075"
      by (simp only: power_add [symmetric]) simp
    finally have "(2::real) powi e / 2 ^ 53 = 1 / 2 ^ 1075" .
    moreover have "0 \<le> \<bar>x\<bar> / 2 ^ 53" by simp
    ultimately show ?thesis using b by linarith
  next
    case ge: False
    then have e: "e = ilog2 \<bar>x\<bar>" by (simp add: e_def)
    have "2 powi e / 2 ^ 53 \<le> \<bar>x\<bar> / 2 ^ 53"
      using powi_ilog2_le [OF False] by (simp add: e divide_right_mono)
    moreover have "0 \<le> 1 / (2::real) ^ 1075" by simp
    ultimately show ?thesis using b by linarith
  qed
qed

subsection \<open>The shares of the pool\<close>

lemma sum_list_shares:
  "(\<Sum>a\<leftarrow>as. if P a then (c::real) else 0) = real (length (filter P as)) * c"
  by (induction as) (simp_all add: algebra_simps)

lemma sum_list_increase_split:
  "(\<Sum>a\<leftarrow>as. if P a then fl (f a + c) - f a else 0)
     = (\<Sum>a\<leftarrow>as. if P a then fl (f a + c) - (f a + c) else 0)
       + (\<Sum>a\<leftarrow>as. if P a then (c::real) else 0)"
  by (induction as) simp_all

lemma sum_list_rounding:
  "\<bar>\<Sum>a\<leftarrow>as. if P a then fl (f a) - f a else 0\<bar>
     \<le> (\<Sum>a\<leftarrow>filter P as. \<bar>f a\<bar>) / 2 ^ 53 + real (length (filter P as)) / 2 ^ 1075"
proof (induction as)
  case Nil
  show ?case by simp
next
  case (Cons a as)
  show ?case
  proof (cases "P a")
    case True
    have "\<bar>\<Sum>a\<leftarrow>a # as. if P a then fl (f a) - f a else 0\<bar>
        \<le> \<bar>fl (f a) - f a\<bar> + \<bar>\<Sum>a\<leftarrow>as. if P a then fl (f a) - f a else 0\<bar>"
      using True by simp
    also have "\<dots> \<le> (\<bar>f a\<bar> / 2 ^ 53 + 1 / 2 ^ 1075)
        + ((\<Sum>a\<leftarrow>filter P as. \<bar>f a\<bar>) / 2 ^ 53 + real (length (filter P as)) / 2 ^ 1075)"
      using fl_error [of "f a"] Cons.IH by linarith
    also have "\<dots> = (\<Sum>a\<leftarrow>filter P (a # as). \<bar>f a\<bar>) / 2 ^ 53
        + real (length (filter P (a # as))) / 2 ^ 1075"
      using True by (simp add: add_divide_distrib)
    finally show ?thesis .
  next
    case False
    then show ?thesis using Cons.IH by simp
  qed
qed

text \<open>
  Claim C1, as the code has it. In a step of the stock-predictor model in which at least
  one agent guessed the market outcome, every correct agent is paid the same share, the
  double-precision quotient of \<open>pool\<close> by \<open>count\<close> (\<open>count\<close> the number of correct agents,
  \<open>pool\<close> the product \<open>number_agents * stock_price\<close> set at the start of the step): its
  earnings become the double nearest to earnings plus share, and the earnings of the other
  agents do not change. The shares paid out, \<open>count\<close> times the share, and the sum of the
  increases of the earnings equal \<open>pool\<close> up to floating-point tolerance, a relative error
  of \<open>2\<^sup>-\<^sup>5\<^sup>3\<close> per rounding, not always exactly.
\<close>

theorem payout_shares_pool:
  assumes "activated S m g = Inr (m3, g2)" and "0 < count_correct_agents m3"
  shows "\<exists>m4. StockPredicterModel_step S m g = Inr (m4, g2)
     \<and> pool m3 = real (number_agents m) * stock_price m
     \<and> pool_share m3 = fl (pool m3 / real (count_correct_agents m3))
     \<and> length (agents m4) = length (agents m3)
     \<and> (\<forall>i < length (agents m3).
           earnings (agents m4 ! i) =
             (if guess (agents m3 ! i) = stock_market m3
              then fl (earnings (agents m3 ! i) + pool_share m3)
              else earnings (agents m3 ! i)))
     \<and> \<bar>real (count_correct_agents m3) * pool_share m3 - pool m3\<bar>
           \<le> \<bar>pool m3\<bar> / 2 ^ 53 + real (count_correct_agents m3) / 2 ^ 1075
     \<and> \<bar>(\<Sum>i < length (agents m3). earnings (agents m4 ! i) - earnings (agents m3 ! i))
            - pool m3\<bar>
           \<le> (\<bar>pool m3\<bar>
               + (\<Sum>a\<leftarrow>filter (\<lambda>a. guess a = stock_market m3) (agents m3).
                    \<bar>earnings a + pool_share m3\<bar>)) / 2 ^ 53
             + 2 * real (count_correct_agents m3) / 2 ^ 1075"
proof -
  let ?n = "count_correct_agents m3" and ?s = "pool_share m3"
  let ?P = "\<lambda>a. guess a = stock_market m3"
  let ?m4 = "m3\<lparr>agents := map (\<lambda>a. if ?P a then a\<lparr>earnings := fl (earnings a + ?s)\<rparr> else a)
                         (agents m3)\<rparr>"
  have n: "?n = length (filter ?P (agents m3))"
    by (simp add: count_correct_agents_def)
  have p: "payout m3 = Inr ?m4"
    by (simp add: payout_eq)
  have s: "StockPredicterModel_step S m g = Inr (?m4, g2)"
    by (simp add: StockPredicterModel_step_def assms(1) p)
  have pl: "pool m3 = real (number_agents m) * stock_price m"
    using activated_total [of S m g] assms(1) by auto
  have sh: "?s = fl (pool m3 / real ?n)"
    using assms(2) by (simp add: pool_share_def)
  have d: "\<forall>i < length (agents m3).
           earnings (agents ?m4 ! i) =
             (if ?P (agents m3 ! i) then fl (earnings (agents m3 ! i) + ?s)
              else earnings (agents m3 ! i))"
    by simp
  have "\<bar>?s - pool m3 / real ?n\<bar> \<le> \<bar>pool m3 / real ?n\<bar> / 2 ^ 53 + 1 / 2 ^ 1075"
    unfolding sh by (rule fl_error)
  then have "real ?n * \<bar>?s - pool m3 / real ?n\<bar>
      \<le> real ?n * (\<bar>pool m3 / real ?n\<bar> / 2 ^ 53 + 1 / 2 ^ 1075)"
    by (rule mult_left_mono) simp
  moreover have "real ?n * \<bar>?s - pool m3 / real ?n\<bar> = \<bar>real ?n * ?s - pool m3\<bar>"
  proof -
    have "real ?n * (?s - pool m3 / real ?n) = real ?n * ?s - pool m3"
      using assms(2) by (simp add: right_diff_distrib)
    then have "\<bar>real ?n * ?s - pool m3\<bar> = \<bar>real ?n\<bar> * \<bar>?s - pool m3 / real ?n\<bar>"
      by (metis abs_mult)
    then show ?thesis by simp
  qed
  moreover have "real ?n * (\<bar>pool m3 / real ?n\<bar> / 2 ^ 53 + 1 / 2 ^ 1075)
      = \<bar>pool m3\<bar> / 2 ^ 53 + real ?n / 2 ^ 1075"
    using assms(2) by (simp add: distrib_left abs_divide)
  ultimately have b1: "\<bar>real ?n * ?s - pool m3\<bar> \<le> \<bar>pool m3\<bar> / 2 ^ 53 + real ?n / 2 ^ 1075"
    by simp
  let ?D = "\<Sum>i < length (agents m3). earnings (agents ?m4 ! i) - earnings (agents m3 ! i)"
  have "?D = (\<Sum>i < length (agents m3).
      if ?P (agents m3 ! i) then fl (earnings (agents m3 ! i) + ?s) - earnings (agents m3 ! i)
      else 0)"
    by (rule sum.cong) simp_all
  also have "\<dots> = (\<Sum>a\<leftarrow>agents m3. if ?P a then fl (earnings a + ?s) - earnings a else 0)"
    by (simp add: sum_list_sum_nth atLeast0LessThan)
  finally have D: "?D = (\<Sum>a\<leftarrow>agents m3. if ?P a then fl (earnings a + ?s) - earnings a else 0)" .
  have "(\<Sum>a\<leftarrow>agents m3. if ?P a then fl (earnings a + ?s) - earnings a else 0)
      = (\<Sum>a\<leftarrow>agents m3. if ?P a then fl (earnings a + ?s) - (earnings a + ?s) else 0)
        + (\<Sum>a\<leftarrow>agents m3. if ?P a then ?s else 0)"
    by (rule sum_list_increase_split)
  then have "?D - real ?n * ?s
      = (\<Sum>a\<leftarrow>agents m3. if ?P a then fl (earnings a + ?s) - (earnings a + ?s) else 0)"
    unfolding D n by (simp add: sum_list_shares)
  then have b2: "\<bar>?D - real ?n * ?s\<bar>
      \<le> (\<Sum>a\<leftarrow>filter ?P (agents m3). \<bar>earnings a + ?s\<bar>) / 2 ^ 53 + real ?n / 2 ^ 1075"
    using sum_list_rounding [of ?P "\<lambda>a. earnings a + ?s" "agents m3"] n by simp
  have "\<bar>?D - pool m3\<bar> \<le> \<bar>?D - real ?n * ?s\<bar> + \<bar>real ?n * ?s - pool m3\<bar>"
    by linarith
  then have "\<bar>?D - pool m3\<bar>
      \<le> ((\<Sum>a\<leftarrow>filter ?P (agents m3). \<bar>earnings a + ?s\<bar>) / 2 ^ 53 + real ?n / 2 ^ 1075)
        + (\<bar>pool m3\<bar> / 2 ^ 53 + real ?n / 2 ^ 1075)"
    using b1 b2 by linarith
  also have "\<dots> = (\<bar>pool m3\<bar> + (\<Sum>a\<leftarrow>filter ?P (agents m3). \<bar>earnings a + ?s\<bar>)) / 2 ^ 53
        + 2 * real ?n / 2 ^ 1075"
    by (simp add: add_divide_distrib)
  finally have b3: "\<bar>?D - pool m3\<bar>
      \<le> (\<bar>pool m3\<bar> + (\<Sum>a\<leftarrow>filter ?P (agents m3). \<bar>earnings a + ?s\<bar>)) / 2 ^ 53
        + 2 * real ?n / 2 ^ 1075" .
  show ?thesis
    using s pl sh d b1 b3 by (intro exI [of _ ?m4]) simp
qed

theorem payout_shares_pool_witness:
  "activated scripted (StockPredicterModel_init 4) [1, 1, 1, 0, 0]
       = Inr (scenario_B_activated, [])
   \<and> 0 < count_correct_agents scenario_B_activated
   \<and> pool_share scenario_B_activated = 2
   \<and> (\<exists>m4. StockPredicterModel_step scripted (StockPredicterModel_init 4) [1, 1, 1, 0, 0]
              = Inr (m4, [])
          \<and> earnings (agents m4 ! 0) = 1 \<and> earnings (agents m4 ! 3) = - 1)"
proof -
  have h1: "activated scripted (StockPredicterModel_init 4) [1, 1, 1, 0, 0]
      = Inr (scenario_B_activated, [])"
    by code_simp
  have h2: "0 < count_correct_agents scenario_B_activated"
    by code_simp
  have l: "(0::nat) < length (agents scenario_B_activated)"
      "(3::nat) < length (agents scenario_B_activated)"
      "guess (agents scenario_B_activated ! 0) = stock_market scenario_B_activated"
      "guess (agents scenario_B_activated ! 3) \<noteq> stock_market scenario_B_activated"
      "earnings (agents scenario_B_activated ! 0) = - 1"
      "earnings (agents scenario_B_activated ! 3) = - 1"
    by (simp_all add: scenario_B_activated_def)
  have sh: "pool_share scenario_B_activated = 2" and f: "fl (- 1 + 2) = 1"
    by code_simp+
  from payout_shares_pool [OF h1 h2] obtain m4 where m4:
    "StockPredicterModel_step scripted (StockPredicterModel_init 4) [1, 1, 1, 0, 0]
       = Inr (m4, [])"
    "\<forall>i < length (agents scenario_B_activated).
           earnings (agents m4 ! i) =
             (if guess (agents scenario_B_activated ! i) = stock_market scenario_B_activated
              then fl (earnings (agents scenario_B_activated ! i)
                        + pool_share scenario_B_activated)
              else earnings (agents scenario_B_activated ! i))"
    by blast
  have "earnings (agents m4 ! 0) = 1" "earnings (agents m4 ! 3) = - 1"
    using m4(2) l f by (simp_all add: sh)
  then show ?thesis
    using h1 h2 sh m4(1) by blast
qed

text \<open>
  Claim C1 as stated fails: it has the increases add up to exactly \<open>pool\<close>. In the first
  step of five agents of which three guess the outcome, \<open>pool\<close> is 5 and the share is the
  double nearest to \<open>5/3\<close>, which is \<open>7505999378950827 / 2\<^sup>5\<^sup>2\<close> and not \<open>5/3\<close>; the earnings
  of each correct agent go from \<open>-1\<close> up by exactly that share, and the three increases add
  up to \<open>5 + 2\<^sup>-\<^sup>5\<^sup>2\<close>.
\<close>

theorem payout_sum_counterexample:
  "activated scripted (StockPredicterModel_init 5) [1, 1, 1, 1, 0, 0]
       = Inr (scenario_C_activated, [])
   \<and> count_correct_agents scenario_C_activated = 3 \<and> pool scenario_C_activated = 5
   \<and> pool_share scenario_C_activated = 7505999378950827 / 4503599627370496
   \<and> payout_increases scenario_C_activated
       = Inr [7505999378950827 / 4503599627370496, 7505999378950827 / 4503599627370496,
              7505999378950827 / 4503599627370496, 0, 0]
   \<and> sum_list [7505999378950827 / 4503599627370496, 7505999378950827 / 4503599627370496,
              7505999378950827 / 4503599627370496, 0, 0 :: real]
       = 5 + 1 / 4503599627370496"
  by code_simp




text \<open>
  Claim C7, as the code has it. The stock-predictor model is constructed from the agent
  count \<open>N\<close> alone: the constructor has no unit-price argument and sets \<open>stock_price\<close> to
  1.0. It is the constructor of the specification at unit price 1: \<open>N\<close> agents with the
  identifiers \<open>0..N-1\<close>, each with earnings 0 and no guess, pool 0 and no market outcome.
\<close>

theorem StockPredicterModel_init_fixed_price:
  "StockPredicterModel_init N = spec_StockPredicterModel_init N 1
   \<and> number_agents (StockPredicterModel_init N) = N
   \<and> map unique_id (agents (StockPredicterModel_init N)) = [0..<N]
   \<and> map earnings (agents (StockPredicterModel_init N)) = replicate N 0
   \<and> map guess (agents (StockPredicterModel_init N)) = replicate N None
   \<and> stock_price (StockPredicterModel_init N) = 1
   \<and> pool (StockPredicterModel_init N) = 0
   \<and> stock_market (StockPredicterModel_init N) = None"
  by (simp add: StockPredicterModel_init_def spec_StockPredicterModel_init_def
      StockPredictor_init_def comp_def map_replicate_const map_idI)

text \<open>
  Claim C7 as stated fails: it makes the unit price an argument of the construction. A
  model built for four agents has unit price 1, not a requested 2.5.
\<close>

theorem unit_price_not_configurable:
  "stock_price (StockPredicterModel_init 4) = 1
   \<and> stock_price (spec_StockPredicterModel_init 4 (5/2)) = 5/2
   \<and> StockPredicterModel_init 4 \<noteq> spec_StockPredicterModel_init 4 (5/2)"
  by (simp add: StockPredicterModel_init_def spec_StockPredicterModel_init_def)

text \<open>
  Claim C9. The payout pass changes nothing but the earnings of the agents whose guess
  equals the market outcome: pool, agent count, unit price and market outcome, and the
  identifier and guess of every agent, are as before, and an agent with a wrong guess is
  unchanged. After a step the pool is still \<open>number_agents * stock_price\<close>, and a step
  gives the same result whatever the pool was before it: the pool is overwritten, never
  carried over.
\<close>

theorem payout_frame:
  "(\<exists>m'. payout m = Inr m' \<and> pool m' = pool m \<and> number_agents m' = number_agents m
        \<and> stock_price m' = stock_price m \<and> stock_market m' = stock_market m
        \<and> length (agents m') = length (agents m)
        \<and> (\<forall>i < length (agents m).
              unique_id (agents m' ! i) = unique_id (agents m ! i)
            \<and> guess (agents m' ! i) = guess (agents m ! i)
            \<and> (guess (agents m ! i) \<noteq> stock_market m \<longrightarrow> agents m' ! i = agents m ! i)))
   \<and> (\<exists>m4 g2. StockPredicterModel_step S m g = Inr (m4, g2)
        \<and> pool m4 = real (number_agents m) * stock_price m
        \<and> number_agents m4 = number_agents m \<and> stock_price m4 = stock_price m)
   \<and> StockPredicterModel_step S (m\<lparr>pool := p\<rparr>) g = StockPredicterModel_step S m g"
proof -
  have a: "\<exists>m'. payout m = Inr m' \<and> pool m' = pool m \<and> number_agents m' = number_agents m
        \<and> stock_price m' = stock_price m \<and> stock_market m' = stock_market m
        \<and> length (agents m') = length (agents m)
        \<and> (\<forall>i < length (agents m).
              unique_id (agents m' ! i) = unique_id (agents m ! i)
            \<and> guess (agents m' ! i) = guess (agents m ! i)
            \<and> (guess (agents m ! i) \<noteq> stock_market m \<longrightarrow> agents m' ! i = agents m ! i))"
    by (simp add: payout_eq)
  obtain m3 g2 where m3: "activated S m g = Inr (m3, g2)"
      "pool m3 = real (number_agents m) * stock_price m"
      "number_agents m3 = number_agents m" "stock_price m3 = stock_price m"
    using activated_total [of S m g] by blast
  have b: "\<exists>m4 g2. StockPredicterModel_step S m g = Inr (m4, g2)
        \<and> pool m4 = real (number_agents m) * stock_price m
        \<and> number_agents m4 = number_agents m \<and> stock_price m4 = stock_price m"
    by (simp add: StockPredicterModel_step_def m3 payout_eq)
  have "activated S (m\<lparr>pool := p\<rparr>) g = activated S m g"
    by (simp add: activated_def)
  then have c: "StockPredicterModel_step S (m\<lparr>pool := p\<rparr>) g = StockPredicterModel_step S m g"
    by (simp add: StockPredicterModel_step_def)
  show ?thesis using a b c by blast
qed

theorem payout_frame_witness:
  "(\<exists>m'. payout scenario_B_activated = Inr m' \<and> pool m' = 4
        \<and> agents m' ! 2 = agents scenario_B_activated ! 2)
   \<and> StockPredicterModel_step scripted (scenario_B_activated\<lparr>pool := 7\<rparr>) [1, 1, 1, 0, 0]
       = StockPredicterModel_step scripted scenario_B_activated [1, 1, 1, 0, 0]"
proof -
  have l: "(2::nat) < length (agents scenario_B_activated)"
      "guess (agents scenario_B_activated ! 2) \<noteq> stock_market scenario_B_activated"
      "pool scenario_B_activated = 4"
    by (simp_all add: scenario_B_activated_def)
  from payout_frame [of scenario_B_activated scripted "[1, 1, 1, 0, 0]" 7]
  show ?thesis using l by metis
qed

section \<open>The random-walk model: initial placement\<close>

lemma ceiling_sqrt_le: "\<lceil>sqrt (real N)\<rceil> \<le> int N"
proof -
  have "sqrt (real N) \<le> real N"
  proof (cases "N = 0")
    case True then show ?thesis by simp
  next
    case False
    then have "real N \<le> (real N)\<^sup>2"
      by (simp add: power2_eq_square)
    then show ?thesis by (simp add: real_le_lsqrt)
  qed
  then show ?thesis by (simp add: ceiling_le)
qed

lemma square_less_iff: "k * k < N \<longleftrightarrow> int k < \<lceil>sqrt (real N)\<rceil>"
proof -
  have "k * k < N \<longleftrightarrow> real k * real k < real N"
    by (metis of_nat_less_iff of_nat_mult)
  also have "\<dots> \<longleftrightarrow> real k < sqrt (real N)"
    by (metis of_nat_0_le_iff real_less_rsqrt power2_eq_square real_sqrt_less_iff real_sqrt_abs abs_of_nonneg)
  also have "\<dots> \<longleftrightarrow> int k < \<lceil>sqrt (real N)\<rceil>"
    by (simp add: less_ceiling_iff)
  finally show ?thesis .
qed

lemma ceiling_sqrt_nonneg: "0 \<le> \<lceil>sqrt (real N)\<rceil>"
proof -
  have "0 \<le> sqrt (real N)" by simp
  then have "- 1 < sqrt (real N)" by linarith
  then show ?thesis by simp
qed

lemma ceil_sqrt_eq: "int (ceil_sqrt N) = \<lceil>sqrt (real N)\<rceil>"
proof -
  let ?c = "nat \<lceil>sqrt (real N)\<rceil>"
  have cN: "?c \<le> N" using ceiling_sqrt_le [of N] by linarith
  have iff: "i * i < N \<longleftrightarrow> i < ?c" for i
    by (simp only: square_less_iff zless_nat_eq_int_zless)
  have "{i. i < length [0..<N] \<and> ([0..<N] ! i) * ([0..<N] ! i) < N} = {i. i < N \<and> i * i < N}"
    by auto
  also have "\<dots> = {..<?c}"
    using cN by (auto simp only: iff)
  finally have "ceil_sqrt N = ?c"
    by (simp add: ceil_sqrt_def length_filter_conv_card)
  then show ?thesis using ceiling_sqrt_nonneg [of N] by simp
qed

lemma initial_dim_code [code]: "initial_dim N = real (ceil_sqrt N)"
  using ceil_sqrt_eq [of N] by (simp add: initial_dim_def)

lemma initial_dim_int: "1 \<le> N \<Longrightarrow> \<exists>k::int. 1 \<le> k \<and> initial_dim N = of_int k"
proof -
  assume "1 \<le> N"
  then have "0 < sqrt (real N)" by simp
  then have "1 \<le> \<lceil>sqrt (real N)\<rceil>" by simp
  then show ?thesis unfolding initial_dim_def by blast
qed

lemma py_int_half:
  "py_int (of_int a / 2) = (if 0 \<le> a then a div 2 else - ((- a) div 2))"
proof -
  have f: "\<lfloor>(of_int a :: real) / 2\<rfloor> = a div 2"
    using floor_divide_of_int_eq [of a 2, where ?'a = real] by simp
  have "\<lceil>(of_int a :: real) / 2\<rceil> = - \<lfloor>(of_int (- a) :: real) / 2\<rfloor>"
    by (simp add: ceiling_def)
  also have "\<dots> = - ((- a) div 2)"
    using floor_divide_of_int_eq [of "- a" 2, where ?'a = real] by simp
  finally show ?thesis
    using f by (simp add: py_int_def)
qed

lemma half_minus: "(of_int w :: real) / 2 - of_int k = of_int (w - 2 * k) / 2"
  and half_plus: "(of_int w :: real) / 2 + of_int k = of_int (w + 2 * k) / 2"
  by (simp_all add: field_simps)

lemma ceiling_half: "\<lceil>(of_int w :: real) / 2\<rceil> = (w + 1) div 2"
proof -
  have "\<lceil>(of_int w :: real) / 2\<rceil> = - \<lfloor>(of_int (- w) :: real) / 2\<rfloor>"
    by (simp add: ceiling_def)
  also have "\<dots> = - ((- w) div 2)"
    using floor_divide_of_int_eq [of "- w" 2, where ?'a = real] by simp
  also have "\<dots> = (w + 1) div 2" by presburger
  finally show ?thesis .
qed

lemma low_nonneg: "k \<le> (w + 1) div 2 \<Longrightarrow> 0 \<le> py_int (of_int w / 2 - of_int k)"
  unfolding half_minus py_int_half by (simp split: if_splits)

lemma high_le: "1 \<le> k \<Longrightarrow> k \<le> (w + 1) div 2 \<Longrightarrow> py_int (of_int w / 2 + of_int k) \<le> w"
  unfolding half_plus py_int_half by (simp split: if_splits)

lemma low_neg: "\<not> k \<le> (w + 1) div 2 \<Longrightarrow> py_int (of_int w / 2 - of_int k) < 0"
  unfolding half_minus py_int_half by (simp split: if_splits) presburger

lemma low_less_high:
  "1 \<le> k \<Longrightarrow> py_int (of_int w / 2 - of_int k) < py_int (of_int w / 2 + of_int k)"
  unfolding half_minus half_plus py_int_half by (simp split: if_splits) presburger


lemma scripted_randint_ok: "randint_ok scripted"
proof -
  have "low \<le> low + int x mod (high - low) \<and> low + int x mod (high - low) < high"
    if "low < high" for low high :: int and x :: nat
    using that pos_mod_bound [of "high - low" "int x"] pos_mod_sign [of "high - low" "int x"]
    by linarith
  then show ?thesis
    by (auto simp: randint_ok_def scripted_def split: list.splits)
qed

lemma np_random_randint_range:
  assumes "randint_ok S" and "np_random_randint S low high g = Inr (x, g')"
  shows "py_int low \<le> x \<and> x < py_int high"
proof -
  have lt: "py_int low < py_int high" and x: "x = fst (np_randint S (py_int low) (py_int high) g)"
    using assms(2) by (auto simp: np_random_randint_def Let_def split: if_splits)
  show ?thesis
    using assms(1) lt unfolding x randint_ok_def by blast
qed

lemma draw_position_range:
  assumes "randint_ok S" and "draw_position S G d g = Inr (p, g')"
  shows "in_initial_square G d p"
proof -
  obtain x g1 y where
    x: "np_random_randint S (of_int (width G) / 2 - d) (of_int (width G) / 2 + d) g = Inr (x, g1)"
    and y: "np_random_randint S (of_int (height G) / 2 - d) (of_int (height G) / 2 + d) g1 = Inr (y, g')"
    and p: "p = (x, y)"
    using assms(2) by (auto simp: draw_position_def Let_def split: sum.splits prod.splits)
  show ?thesis
    using np_random_randint_range [OF assms(1) x] np_random_randint_range [OF assms(1) y]
    by (simp add: in_initial_square_def p)
qed

lemma draw_position_scripted_low:
  assumes "1 \<le> k"
  shows "draw_position scripted G (of_int k) []
    = Inr ((py_int (of_int (width G) / 2 - of_int k), py_int (of_int (height G) / 2 - of_int k)), [])"
  using low_less_high [OF assms, of "width G"] low_less_high [OF assms, of "height G"]
  by (simp add: draw_position_def np_random_randint_def Let_def scripted_def)

text \<open>
  Claim C10, as the code has it. For \<open>N \<ge> 1\<close> agents the coordinates that construction
  draws and passes to \<open>place_agent\<close> are inside the grid for every draw exactly when
  \<open>\<lceil>\<surd>N\<rceil> \<le> \<lceil>W/2\<rceil>\<close> and \<open>\<lceil>\<surd>N\<rceil> \<le> \<lceil>H/2\<rceil>\<close>: under that condition every drawn position is
  in bounds, whatever the source draws within its contract; when it fails, a source within
  its contract draws a position outside the grid. The condition of the claim, with \<open>\<lfloor>W/2\<rfloor>\<close>
  and \<open>\<lfloor>H/2\<rfloor>\<close>, implies it.
\<close>

theorem initial_positions_in_bounds:
  assumes "1 \<le> N"
  shows "(initial_dim N \<le> of_int \<lceil>of_int (width G) / 2 :: real\<rceil>
           \<and> initial_dim N \<le> of_int \<lceil>of_int (height G) / 2 :: real\<rceil>
         \<longrightarrow> (\<forall>S g p g'. randint_ok S \<and> draw_position S G (initial_dim N) g = Inr (p, g')
                \<longrightarrow> \<not> out_of_bounds G p))
     \<and> (\<not> (initial_dim N \<le> of_int \<lceil>of_int (width G) / 2 :: real\<rceil>
              \<and> initial_dim N \<le> of_int \<lceil>of_int (height G) / 2 :: real\<rceil>)
         \<longrightarrow> (\<exists>p g'. randint_ok scripted
                \<and> draw_position scripted G (initial_dim N) [] = Inr (p, g')
                \<and> out_of_bounds G p))
     \<and> (initial_dim N \<le> of_int (width G div 2) \<and> initial_dim N \<le> of_int (height G div 2)
         \<longrightarrow> initial_dim N \<le> of_int \<lceil>of_int (width G) / 2 :: real\<rceil>
           \<and> initial_dim N \<le> of_int \<lceil>of_int (height G) / 2 :: real\<rceil>)"
proof -
  obtain k :: int where k: "1 \<le> k" "initial_dim N = of_int k"
    using initial_dim_int [OF assms] by blast
  have a: "\<not> out_of_bounds G p"
    if "k \<le> (width G + 1) div 2" "k \<le> (height G + 1) div 2" "randint_ok S"
      "draw_position S G (of_int k) g = Inr (p, g')" for S :: "'a variate_source" and g p g'
    using draw_position_range [OF that(3,4)] low_nonneg [OF that(1)] low_nonneg [OF that(2)]
      high_le [OF k(1) that(1)] high_le [OF k(1) that(2)]
    by (simp add: in_initial_square_def out_of_bounds_def)
  have b: "out_of_bounds G (py_int (of_int (width G) / 2 - of_int k),
                            py_int (of_int (height G) / 2 - of_int k))"
    if "\<not> (k \<le> (width G + 1) div 2 \<and> k \<le> (height G + 1) div 2)"
    using that low_neg [of k "width G"] low_neg [of k "height G"]
    by (auto simp: out_of_bounds_def)
  have c: "k \<le> (w + 1) div 2" if "k \<le> w div 2" for w
    using that by presburger
  show ?thesis
    unfolding k(2) ceiling_half of_int_le_iff
    using a b c draw_position_scripted_low [OF k(1), of G] scripted_randint_ok
    by blast
qed

theorem initial_positions_in_bounds_witness:
  "(1::nat) \<le> 4
   \<and> \<not> (initial_dim 4 \<le> of_int \<lceil>of_int (width (MultiGrid_init 2 2 True)) / 2 :: real\<rceil>
          \<and> initial_dim 4 \<le> of_int \<lceil>of_int (height (MultiGrid_init 2 2 True)) / 2 :: real\<rceil>)
   \<and> (\<exists>p g'. draw_position scripted (MultiGrid_init 2 2 True) (initial_dim 4) [] = Inr (p, g')
          \<and> out_of_bounds (MultiGrid_init 2 2 True) p)"
proof -
  have h: "(1::nat) \<le> 4" by simp
  have n: "\<not> (initial_dim 4 \<le> of_int \<lceil>of_int (width (MultiGrid_init 2 2 True)) / 2 :: real\<rceil>
          \<and> initial_dim 4 \<le> of_int \<lceil>of_int (height (MultiGrid_init 2 2 True)) / 2 :: real\<rceil>)"
    by (simp add: initial_dim_def MultiGrid_init_def)
  note t = initial_positions_in_bounds [OF h, of "MultiGrid_init 2 2 True", where ?'a = unit]
  have "\<exists>p g'. randint_ok scripted
          \<and> draw_position scripted (MultiGrid_init 2 2 True) (initial_dim 4) [] = Inr (p, g')
          \<and> out_of_bounds (MultiGrid_init 2 2 True) p"
    by (rule mp [OF conjunct1 [OF conjunct2 [OF t]] n])
  then show ?thesis using h n by blast
qed

text \<open>
  Claim C10 as stated fails where it says that construction can pass coordinates outside
  the grid whenever \<open>\<lceil>\<surd>N\<rceil> \<le> \<lfloor>W/2\<rfloor>\<close> or \<open>\<lceil>\<surd>N\<rceil> \<le> \<lfloor>H/2\<rfloor>\<close> fails. For four agents on a 3 by 3
  grid \<open>\<lceil>\<surd>4\<rceil> = 2 > 1 = \<lfloor>3/2\<rfloor>\<close>, yet the bounds passed to \<open>randint\<close> are \<open>-0.5\<close> and
  \<open>3.5\<close>, converted to 0 and 3: the least and the greatest draw are both inside the grid,
  and a construction that draws them places the four agents in the corners of the grid.
\<close>

theorem floor_precondition_not_necessary:
  "\<not> (initial_dim 4 \<le> of_int ((3::int) div 2))
   \<and> py_int (3 / 2 - initial_dim 4) = 0 \<and> py_int (3 / 2 + initial_dim 4) = 3
   \<and> draw_position scripted (MultiGrid_init 3 3 True) (initial_dim 4) [0, 0] = Inr ((0, 0), [])
   \<and> draw_position scripted (MultiGrid_init 3 3 True) (initial_dim 4) [2, 2] = Inr ((2, 2), [])
   \<and> positions (TravelModel_init scripted 4 [1/10, 9/10] 3 3 [0, 0, 0, 0, 0, 0, 2, 2, 0, 2, 2, 0])
       = Inr [Some (0, 0), Some (2, 2), Some (0, 2), Some (2, 0)]"
  by code_simp

lemma create_travelers_result:
  "create_travelers S tp is g = Inr (as, g') \<Longrightarrow>
     map unique_id as = is \<and> (\<forall>a \<in> set as. pos a = None \<and> travel_prob a \<in> set tp)"
proof (induction "is" arbitrary: as g)
  case Nil
  then show ?case by simp
next
  case (Cons i "is")
  then show ?case
    by (auto simp: py_index_def split: sum.splits prod.splits if_splits)
qed

lemma place_agent_result:
  "place_agent G a p = Inr (G', a') \<Longrightarrow>
     \<not> out_of_bounds G p \<and> a' = a\<lparr>pos := Some p\<rparr>
     \<and> G' = G\<lparr>cells := (cells G)(p := insert (unique_id a) (cells G p))\<rparr>"
  by (auto simp: place_agent_def split: if_splits)





section \<open>The random-walk model: grid consistency\<close>

lemma grid_consistent_nth:
  "grid_consistent m \<longleftrightarrow>
     distinct (map unique_id (agents m)) \<and>
     (\<forall>j < length (agents m). \<forall>q.
        unique_id (agents m ! j) \<in> cells (grid m) q \<longleftrightarrow> pos (agents m ! j) = Some q) \<and>
     (\<forall>j < length (agents m). \<forall>q.
        pos (agents m ! j) = Some q \<longrightarrow> \<not> out_of_bounds (grid m) q) \<and>
     (\<forall>q. \<forall>k \<in> cells (grid m) q. \<exists>j < length (agents m). unique_id (agents m ! j) = k)"
  unfolding grid_consistent_def all_set_conv_all_nth image_iff Bex_def in_set_conv_nth
  by (intro conj_cong refl) (auto; metis)

lemma distinct_ids_nth:
  "distinct (map unique_id xs) \<Longrightarrow> i < length xs \<Longrightarrow> j < length xs \<Longrightarrow>
     unique_id (xs ! i) = unique_id (xs ! j) \<longleftrightarrow> i = j"
  using nth_eq_iff_index_eq [of "map unique_id xs" i j] by simp

lemma map_ids_update:
  "i < length xs \<Longrightarrow> unique_id a = unique_id (xs ! i) \<Longrightarrow>
     map unique_id (xs[i := a]) = map unique_id xs"
  by (simp add: map_update list_update_same_conv)

lemma out_of_bounds_cells [simp]: "out_of_bounds (G\<lparr>cells := c\<rparr>) = out_of_bounds G"
  by (simp add: out_of_bounds_def fun_eq_iff)

lemma place_agent_consistent:
  assumes "grid_consistent m" and "i < length (agents m)" and "pos (agents m ! i) = None"
    and "place_agent (grid m) (agents m ! i) p = Inr (G', a')"
  shows "grid_consistent (m\<lparr>grid := G', agents := (agents m)[i := a']\<rparr>)"
proof -
  let ?xs = "agents m" and ?k = "unique_id (agents m ! i)"
  have r: "\<not> out_of_bounds (grid m) p" "a' = (agents m ! i)\<lparr>pos := Some p\<rparr>"
      "G' = (grid m)\<lparr>cells := (cells (grid m))(p := insert ?k (cells (grid m) p))\<rparr>"
    using place_agent_result [OF assms(4)] by simp_all
  note c = assms(1) [unfolded grid_consistent_nth]
  have d: "distinct (map unique_id ?xs)" using c by blast
  have c2: "unique_id (?xs ! j) \<in> cells (grid m) q \<longleftrightarrow> pos (?xs ! j) = Some q"
    if "j < length ?xs" for j q using c that by blast
  have c3: "\<not> out_of_bounds (grid m) q" if "j < length ?xs" "pos (?xs ! j) = Some q" for j q
    using c that by blast
  have c4: "\<exists>j < length ?xs. unique_id (?xs ! j) = k" if "k \<in> cells (grid m) q" for k q
    using c that by blast
  have ids: "map unique_id (?xs[i := a']) = map unique_id ?xs"
    using assms(2) by (simp add: map_ids_update r(2))
  have neq: "unique_id (?xs ! j) \<noteq> ?k" if "j < length ?xs" "j \<noteq> i" for j
    using distinct_ids_nth [OF d that(1) assms(2)] that(2) by simp
  have none: "?k \<notin> cells (grid m) q" for q
    using c2 [OF assms(2), of q] assms(3) by simp
  have 1: "distinct (map unique_id (?xs[i := a']))"
    using d ids by simp
  have 2: "unique_id (?xs[i := a'] ! j) \<in> cells G' q \<longleftrightarrow> pos (?xs[i := a'] ! j) = Some q"
    if "j < length ?xs" for j q
  proof (cases "j = i")
    case True
    then show ?thesis using assms(2) none by (auto simp: r(2,3))
  next
    case False
    then show ?thesis using c2 [OF that, of q] neq [OF that False] by (auto simp: r(3))
  qed
  have 3: "\<not> out_of_bounds G' q" if "j < length ?xs" "pos (?xs[i := a'] ! j) = Some q" for j q
    using that c3 [of j q] r(1) assms(2) by (cases "j = i") (auto simp: r(2,3))
  have 4: "\<exists>j < length ?xs. unique_id (?xs[i := a'] ! j) = k" if "k \<in> cells G' q" for k q
  proof (cases "k = ?k")
    case True
    then show ?thesis using assms(2) by (auto simp: r(2) intro!: exI [of _ i])
  next
    case False
    then have "k \<in> cells (grid m) q" using that by (auto simp: r(3) split: if_splits)
    then obtain j where j: "j < length ?xs" "unique_id (?xs ! j) = k" using c4 by blast
    then have "j \<noteq> i" using False by auto
    then show ?thesis using j by (auto intro!: exI [of _ j])
  qed
  show ?thesis
    unfolding grid_consistent_nth using 1 2 3 4 by simp
qed

lemma torus_adj_in_bounds:
  assumes "torus_adj G c = Inr new" and "0 < width G" and "0 < height G"
  shows "\<not> out_of_bounds G new"
proof -
  have "0 \<le> fst c mod width G" "fst c mod width G < width G"
       "0 \<le> snd c mod height G" "snd c mod height G < height G"
    using assms(2,3) by simp_all
  then show ?thesis
    using assms(1) by (auto simp: torus_adj_def out_of_bounds_def split: if_splits)
qed

lemma move_agent_result:
  assumes "move_agent G a c = Inr (G', a')"
  shows "\<exists>old new. pos a = Some old \<and> torus_adj G c = Inr new \<and> a' = a\<lparr>pos := Some new\<rparr>
     \<and> G' = G\<lparr>cells := ((cells G)(old := cells G old - {unique_id a}))
                    (new := insert (unique_id a) (((cells G)(old := cells G old - {unique_id a})) new))\<rparr>"
proof (cases "pos a")
  case None
  then show ?thesis using assms by (simp add: move_agent_def)
next
  case (Some old)
  show ?thesis
  proof (cases "torus_adj G c")
    case (Inl e)
    then show ?thesis using assms Some by (simp add: move_agent_def)
  next
    case (Inr new)
    show ?thesis
      using assms Some Inr
      by (intro exI [of _ old] exI [of _ new]) (auto simp: move_agent_def Let_def)
  qed
qed

lemma move_agent_consistent:
  assumes "grid_consistent m" and "i < length (agents m)"
    and "move_agent (grid m) (agents m ! i) c = Inr (G', a')"
  shows "grid_consistent (m\<lparr>grid := G', agents := (agents m)[i := a']\<rparr>)
     \<and> pos a' \<noteq> None \<and> unique_id a' = unique_id (agents m ! i)
     \<and> travel_prob a' = travel_prob (agents m ! i) \<and> torus G' = torus (grid m)"
proof -
  let ?xs = "agents m" and ?k = "unique_id (agents m ! i)"
  obtain old new where r: "pos (?xs ! i) = Some old" "torus_adj (grid m) c = Inr new"
      "a' = (?xs ! i)\<lparr>pos := Some new\<rparr>"
      "G' = (grid m)\<lparr>cells := ((cells (grid m))(old := cells (grid m) old - {?k}))
                    (new := insert ?k (((cells (grid m))(old := cells (grid m) old - {?k})) new))\<rparr>"
    using move_agent_result [OF assms(3)] by blast
  note c = assms(1) [unfolded grid_consistent_nth]
  have d: "distinct (map unique_id ?xs)" using c by blast
  have c2: "unique_id (?xs ! j) \<in> cells (grid m) q \<longleftrightarrow> pos (?xs ! j) = Some q"
    if "j < length ?xs" for j q using c that by blast
  have c3: "\<not> out_of_bounds (grid m) q" if "j < length ?xs" "pos (?xs ! j) = Some q" for j q
    using c that by blast
  have c4: "\<exists>j < length ?xs. unique_id (?xs ! j) = k" if "k \<in> cells (grid m) q" for k q
    using c that by blast
  have "\<not> out_of_bounds (grid m) old" using c3 [OF assms(2) r(1)] .
  then have "0 < width (grid m)" "0 < height (grid m)"
    by (auto simp: out_of_bounds_def)
  then have nb: "\<not> out_of_bounds (grid m) new"
    using torus_adj_in_bounds [OF r(2)] by simp
  have ids: "map unique_id (?xs[i := a']) = map unique_id ?xs"
    using assms(2) by (simp add: map_ids_update r(3))
  have neq: "unique_id (?xs ! j) \<noteq> ?k" if "j < length ?xs" "j \<noteq> i" for j
    using distinct_ids_nth [OF d that(1) assms(2)] that(2) by simp
  have only: "?k \<in> cells (grid m) q \<longleftrightarrow> q = old" for q
    using c2 [OF assms(2), of q] r(1) by auto
  have 1: "distinct (map unique_id (?xs[i := a']))"
    using d ids by simp
  have 2: "unique_id (?xs[i := a'] ! j) \<in> cells G' q \<longleftrightarrow> pos (?xs[i := a'] ! j) = Some q"
    if "j < length ?xs" for j q
  proof (cases "j = i")
    case True
    then show ?thesis using assms(2) only [of q] by (auto simp: r(3,4))
  next
    case False
    then show ?thesis using c2 [OF that, of q] neq [OF that False] by (auto simp: r(4))
  qed
  have 3: "\<not> out_of_bounds G' q" if "j < length ?xs" "pos (?xs[i := a'] ! j) = Some q" for j q
    using that c3 [of j q] nb assms(2) by (cases "j = i") (auto simp: r(3,4))
  have 4: "\<exists>j < length ?xs. unique_id (?xs[i := a'] ! j) = k" if "k \<in> cells G' q" for k q
  proof (cases "k = ?k")
    case True
    then show ?thesis using assms(2) by (auto simp: r(3) intro!: exI [of _ i])
  next
    case False
    then have "k \<in> cells (grid m) q" using that by (auto simp: r(4) split: if_splits)
    then obtain j where j: "j < length ?xs" "unique_id (?xs ! j) = k" using c4 by blast
    then have "j \<noteq> i" using False by auto
    then show ?thesis using j by (auto intro!: exI [of _ j])
  qed
  have "grid_consistent (m\<lparr>grid := G', agents := (agents m)[i := a']\<rparr>)"
    unfolding grid_consistent_nth using 1 2 3 4 by simp
  then show ?thesis by (simp add: r(3,4))
qed

lemma set_get_neighborhood_torus:
  assumes "torus G"
  shows "set (get_neighborhood G p moore include_center)
    = (\<lambda>(dx, dy). ((fst p + dx) mod width G, (snd p + dy) mod height G))
        ` set (offsets moore include_center)"
  using assms by (auto simp: get_neighborhood_def)

lemma offsets_moore:
  "offsets True False = [(-1, -1), (0, -1), (1, -1), (-1, 0), (1, 0), (-1, 1), (0, 1), (1, 1)]"
  by (simp add: offsets_def)

lemma get_neighborhood_not_empty:
  assumes "torus G"
  shows "get_neighborhood G p True False \<noteq> []"
proof -
  have "set (get_neighborhood G p True False) \<noteq> {}"
    unfolding set_get_neighborhood_torus [OF assms] offsets_moore by simp
  then show ?thesis by auto
qed

lemma well_formed_update:
  assumes "well_formed m" and "i < length (agents m)"
    and "grid_consistent (m\<lparr>grid := G', agents := (agents m)[i := a']\<rparr>)"
    and "pos a' \<noteq> None" and "travel_prob a' = travel_prob (agents m ! i)"
    and "torus G' = torus (grid m)"
  shows "well_formed (m\<lparr>grid := G', agents := (agents m)[i := a']\<rparr>)"
proof -
  have "pos a \<noteq> None \<and> 0 \<le> travel_prob a \<and> travel_prob a \<le> 1"
    if "a \<in> set ((agents m)[i := a'])" for a
  proof (cases "a = a'")
    case True
    then show ?thesis
      using assms(1,2,4,5) by (simp add: well_formed_def)
  next
    case False
    then have "a \<in> set (agents m)"
      using that set_update_subset_insert [of "agents m" i a'] by auto
    then show ?thesis using assms(1) by (simp add: well_formed_def)
  qed
  then show ?thesis
    using assms(1,3,6) by (simp add: well_formed_def)
qed

lemma Traveler_step_well_formed:
  assumes "well_formed m" and "i < length (agents m)"
  shows "\<exists>m' g'. Traveler_step S m i g = Inr (m', g') \<and> well_formed m'
     \<and> map unique_id (agents m') = map unique_id (agents m)"
proof -
  let ?a = "agents m ! i"
  have a: "?a \<in> set (agents m)" using assms(2) by simp
  then have pr: "0 \<le> travel_prob ?a" "travel_prob ?a \<le> 1" and t: "torus (grid m)"
    and gc: "grid_consistent m"
    using assms(1) by (simp_all add: well_formed_def)
  obtain p where p: "pos ?a = Some p"
    using assms(1) a by (auto simp: well_formed_def)
  obtain b g1 where b: "np_binomial S 1 (travel_prob ?a) g = (b, g1)"
    by (cases "np_binomial S 1 (travel_prob ?a) g")
  have mv: "move S m i g = (if b \<noteq> 0 then travel S m i g1 else Inr (m, g1))"
    using pr b by (simp add: move_def np_random_binomial_def)
  show ?thesis
  proof (cases "b = 0")
    case True
    then show ?thesis using mv assms(1) by (simp add: Traveler_step_def)
  next
    case False
    let ?ns = "get_neighborhood (grid m) p True False"
    obtain c g' where c: "py_choice S ?ns g1 = (c, g')"
      by (cases "py_choice S ?ns g1")
    have rc: "random_choice S ?ns g1 = Inr (c, g')"
      using get_neighborhood_not_empty [OF t, of p] c by (simp add: random_choice_def)
    have "\<not> out_of_bounds (grid m) p"
      using gc a p unfolding grid_consistent_def by blast
    then have "0 < width (grid m)" "0 < height (grid m)"
      by (auto simp: out_of_bounds_def)
    have "\<exists>new. torus_adj (grid m) c = Inr new"
      using t by (simp add: torus_adj_def)
    then obtain new where "torus_adj (grid m) c = Inr new" ..
    then obtain G' a' where ma: "move_agent (grid m) ?a c = Inr (G', a')"
      using p by (auto simp: move_agent_def Let_def)
    have tr: "travel S m i g1 = Inr (m\<lparr>grid := G', agents := (agents m)[i := a']\<rparr>, g')"
      using p rc ma by (simp add: travel_def)
    note r = move_agent_consistent [OF gc assms(2) ma]
    have "well_formed (m\<lparr>grid := G', agents := (agents m)[i := a']\<rparr>)"
      using well_formed_update [OF assms] r by blast
    moreover have "map unique_id ((agents m)[i := a']) = map unique_id (agents m)"
      using r assms(2) by (simp add: map_ids_update)
    ultimately show ?thesis
      using mv tr False by (simp add: Traveler_step_def)
  qed
qed

lemma activate_travelers_well_formed:
  "well_formed m \<Longrightarrow> \<forall>i \<in> set is. i < length (agents m) \<Longrightarrow>
     \<exists>m' g'. activate_travelers S is m g = Inr (m', g') \<and> well_formed m'
       \<and> map unique_id (agents m') = map unique_id (agents m)"
proof (induction "is" arbitrary: m g)
  case Nil
  then show ?case by simp
next
  case (Cons i "is")
  obtain m1 g1 where 1: "Traveler_step S m i g = Inr (m1, g1)" "well_formed m1"
      "map unique_id (agents m1) = map unique_id (agents m)"
    using Traveler_step_well_formed [of m i S g] Cons.prems by auto
  then have "length (agents m1) = length (agents m)"
    by (metis length_map)
  then have "\<forall>i \<in> set is. i < length (agents m1)"
    using Cons.prems(2) by simp
  from Cons.IH [OF 1(2) this, of g1] 1 show ?case
    by auto
qed

lemma shuffled_agents:
  assumes "shuffle_ok S"
  shows "set (fst (random_shuffle S xs g)) = set xs"
    and "distinct (map unique_id xs) \<Longrightarrow> distinct (map unique_id (fst (random_shuffle S xs g)))"
proof -
  let ?p = "fst (py_shuffle S (length xs) g)"
  have p: "distinct ?p" "set ?p = {0..<length xs}"
    using assms by (simp_all add: shuffle_ok_def)
  have r: "fst (random_shuffle S xs g) = map (\<lambda>i. xs ! i) ?p"
    by (simp add: random_shuffle_def split: prod.splits)
  show "set (fst (random_shuffle S xs g)) = set xs"
    unfolding r using nth_image [of "length xs" xs] by (simp add: p(2))
  assume d: "distinct (map unique_id xs)"
  have "inj_on (\<lambda>i. unique_id (xs ! i)) (set ?p)"
    unfolding p(2) using distinct_ids_nth [OF d] by (auto intro!: inj_onI)
  then show "distinct (map unique_id (fst (random_shuffle S xs g)))"
    unfolding r using p(1) by (simp add: distinct_map comp_def)
qed

lemma well_formed_agents_cong:
  assumes "well_formed m" and "set as = set (agents m)" and "distinct (map unique_id as)"
  shows "well_formed (m\<lparr>agents := as\<rparr>)"
  using assms by (simp add: well_formed_def grid_consistent_def)

lemma TravelModel_step_well_formed:
  assumes "shuffle_ok S" and "well_formed m"
  shows "\<exists>m' g'. TravelModel_step S m g = Inr (m', g') \<and> well_formed m'
     \<and> set (map unique_id (agents m')) = set (map unique_id (agents m))"
proof -
  let ?as = "fst (random_shuffle S (agents m) g)" and ?g1 = "snd (random_shuffle S (agents m) g)"
  have d: "distinct (map unique_id (agents m))"
    using assms(2) by (simp add: well_formed_def grid_consistent_def)
  have w: "well_formed (m\<lparr>agents := ?as\<rparr>)"
    using well_formed_agents_cong [OF assms(2)] shuffled_agents [OF assms(1), of "agents m" g] d
    by simp
  have "\<forall>i \<in> set [0..<length ?as]. i < length (agents (m\<lparr>agents := ?as\<rparr>))"
    by simp
  from activate_travelers_well_formed [OF w this, of S ?g1]
  obtain m' g' where a: "activate_travelers S [0..<length ?as] (m\<lparr>agents := ?as\<rparr>) ?g1 = Inr (m', g')"
    "well_formed m'" "map unique_id (agents m') = map unique_id ?as"
    by auto
  have "set (map unique_id ?as) = set (map unique_id (agents m))"
    using shuffled_agents(1) [OF assms(1), of "agents m" g] by simp
  then have "set (map unique_id (agents m')) = set (map unique_id (agents m))"
    by (simp only: a(3))
  moreover have "TravelModel_step S m g = Inr (m', g')"
    using a(1) by (simp add: TravelModel_step_def case_prod_beta)
  ultimately show ?thesis
    using a(2) by blast
qed

lemma TravelModel_run_well_formed:
  assumes "shuffle_ok S"
  shows "well_formed m \<Longrightarrow>
     \<exists>orders m' g'. TravelModel_run S n m g = Inr ((orders, m'), g') \<and> well_formed m'
       \<and> set (map unique_id (agents m')) = set (map unique_id (agents m))"
proof (induction n arbitrary: m g)
  case 0
  then show ?case by simp
next
  case (Suc n)
  obtain m1 g1 where 1: "TravelModel_step S m g = Inr (m1, g1)" "well_formed m1"
      "set (map unique_id (agents m1)) = set (map unique_id (agents m))"
    using TravelModel_step_well_formed [OF assms Suc.prems, of g] by auto
  from Suc.IH [OF 1(2), of g1] 1 show ?case
    by auto
qed

lemma init_travelers_loop_consistent:
  "init_travelers_loop S d is m g = Inr (m', g') \<Longrightarrow> grid_consistent m \<Longrightarrow> distinct is \<Longrightarrow>
     \<forall>i \<in> set is. i < length (agents m) \<and> pos (agents m ! i) = None \<Longrightarrow>
     grid_consistent m' \<and> torus (grid m') = torus (grid m)
     \<and> map unique_id (agents m') = map unique_id (agents m)
     \<and> map travel_prob (agents m') = map travel_prob (agents m)
     \<and> (\<forall>j < length (agents m). j \<in> set is \<or> pos (agents m ! j) \<noteq> None
            \<longrightarrow> pos (agents m' ! j) \<noteq> None)"
proof (induction "is" arbitrary: m g)
  case Nil
  then show ?case by simp
next
  case (Cons i "is")
  from Cons.prems(1) obtain p g1 G' a' where
    pl: "place_agent (grid m) (agents m ! i) p = Inr (G', a')"
    and r: "init_travelers_loop S d is (m\<lparr>grid := G', agents := (agents m)[i := a']\<rparr>) g1
        = Inr (m', g')"
    by (auto split: sum.splits prod.splits)
  let ?m1 = "m\<lparr>grid := G', agents := (agents m)[i := a']\<rparr>"
  have i: "i < length (agents m)" "pos (agents m ! i) = None" "i \<notin> set is" "distinct is"
    using Cons.prems(3,4) by simp_all
  have gc: "grid_consistent ?m1"
    using place_agent_consistent [OF Cons.prems(2) i(1,2) pl] .
  have a': "a' = (agents m ! i)\<lparr>pos := Some p\<rparr>" and G': "torus G' = torus (grid m)"
    using place_agent_result [OF pl] by simp_all
  have rest: "\<forall>j \<in> set is. j < length (agents ?m1) \<and> pos (agents ?m1 ! j) = None"
    using Cons.prems(4) i(3) by (auto simp: nth_list_update)
  note ih = Cons.IH [OF r gc i(4) rest]
  have ids: "map unique_id (agents ?m1) = map unique_id (agents m)"
    using i(1) by (simp add: map_ids_update a')
  have tps: "map travel_prob (agents ?m1) = map travel_prob (agents m)"
    using i(1) by (simp add: map_update list_update_same_conv a')
  have "pos (agents m' ! j) \<noteq> None"
    if "j < length (agents m)" "j \<in> set (i # is) \<or> pos (agents m ! j) \<noteq> None" for j
  proof -
    have len1: "length (agents ?m1) = length (agents m)" by simp
    have "\<forall>j < length (agents ?m1). j \<in> set is \<or> pos (agents ?m1 ! j) \<noteq> None
            \<longrightarrow> pos (agents m' ! j) \<noteq> None"
      using ih by blast
    moreover have "j \<in> set is \<or> pos (agents ?m1 ! j) \<noteq> None"
      using that i(1) by (auto simp: nth_list_update a')
    ultimately show ?thesis
      using that(1) unfolding len1 by blast
  qed
  then show ?case
    using ih G' ids tps by simp
qed

lemma fresh_model_consistent:
  assumes "map unique_id as = [0..<N]" and "\<forall>a \<in> set as. pos a = None"
  shows "grid_consistent \<lparr>number_agents = N, agents = as, grid = MultiGrid_init w h True\<rparr>"
proof -
  have "distinct (map unique_id as)" using assms(1) by simp
  then show ?thesis
    using assms(2) by (simp add: grid_consistent_def MultiGrid_init_def)
qed

lemma TravelModel_init_well_formed:
  assumes "\<forall>p \<in> set travel_probs. 0 \<le> p \<and> p \<le> 1"
    and "TravelModel_init S N travel_probs w h g = Inr (m, g')"
  shows "well_formed m \<and> map unique_id (agents m) = [0..<N]"
proof -
  obtain as g1 where c: "create_travelers S travel_probs [0..<N] g = Inr (as, g1)"
    and i: "init_travelers S \<lparr>number_agents = N, agents = as, grid = MultiGrid_init w h True\<rparr> g1
        = Inr (m, g')"
    using assms(2) by (auto simp: TravelModel_init_def split: sum.splits prod.splits)
  let ?m0 = "\<lparr>number_agents = N, agents = as, grid = MultiGrid_init w h True\<rparr>"
  note cr = create_travelers_result [OF c]
  have gc: "grid_consistent ?m0"
    using fresh_model_consistent cr by blast
  have l: "init_travelers_loop S (initial_dim N) [0..<length (agents ?m0)] ?m0 g1 = Inr (m, g')"
    using i by (simp add: init_travelers_def)
  have pre: "\<forall>i \<in> set [0..<length (agents ?m0)].
      i < length (agents ?m0) \<and> pos (agents ?m0 ! i) = None"
    using cr by simp
  note r = init_travelers_loop_consistent [OF l gc distinct_upt pre]
  have ids: "map unique_id (agents m) = [0..<N]"
    using r cr by simp
  have "length (map unique_id (agents m)) = length (map unique_id as)"
    using r by simp
  then have len: "length (agents m) = length as"
    by simp
  have placed: "\<forall>j < length (agents m). pos (agents m ! j) \<noteq> None"
    using r len by simp
  have "set (map travel_prob (agents m)) \<subseteq> set travel_probs"
    using r cr by auto
  then have probs: "\<forall>a \<in> set (agents m). 0 \<le> travel_prob a \<and> travel_prob a \<le> 1"
    using assms(1) by auto
  have "torus (grid m)"
    using r by (simp add: MultiGrid_init_def)
  then show ?thesis
    using r ids placed probs unfolding well_formed_def all_set_conv_all_nth by simp
qed

text \<open>
  Claim C5. After construction and any number of steps of the random-walk model (the run
  does not raise, given a shuffle that is a permutation and travel probabilities in
  \<open>[0, 1]\<close>), the agents are still the \<open>N\<close> agents \<open>0..N-1\<close>, each once; every agent has a
  recorded position, a cell of the grid; the occupant set of that cell contains the agent
  and no other cell's occupant set does; and every occupant of a cell is an agent whose
  recorded position is that cell.
\<close>

theorem grid_consistency:
  assumes "shuffle_ok S" and "\<forall>p \<in> set travel_probs. 0 \<le> p \<and> p \<le> 1"
    and "TravelModel_init S N travel_probs w h g = Inr (m0, g0)"
  shows "\<exists>orders m g'. TravelModel_run S n m0 g0 = Inr ((orders, m), g')
     \<and> distinct (map unique_id (agents m))
     \<and> set (map unique_id (agents m)) = {0..<N}
     \<and> (\<forall>a \<in> set (agents m). \<exists>p. pos a = Some p \<and> \<not> out_of_bounds (grid m) p
            \<and> unique_id a \<in> cells (grid m) p
            \<and> (\<forall>q. unique_id a \<in> cells (grid m) q \<longrightarrow> q = p))
     \<and> (\<forall>q. \<forall>k \<in> cells (grid m) q. \<exists>a \<in> set (agents m). unique_id a = k \<and> pos a = Some q)"
proof -
  have w0: "well_formed m0" and ids0: "map unique_id (agents m0) = [0..<N]"
    using TravelModel_init_well_formed [OF assms(2,3)] by simp_all
  obtain orders m g' where r: "TravelModel_run S n m0 g0 = Inr ((orders, m), g')"
      "well_formed m" "set (map unique_id (agents m)) = set (map unique_id (agents m0))"
    using TravelModel_run_well_formed [OF assms(1) w0, of n g0] by blast
  have gc: "grid_consistent m" and placed: "\<forall>a \<in> set (agents m). pos a \<noteq> None"
    using r(2) by (simp_all add: well_formed_def)
  have 1: "distinct (map unique_id (agents m))"
    using gc by (simp add: grid_consistent_def)
  have 2: "set (map unique_id (agents m)) = {0..<N}"
    using r(3) ids0 by simp
  have 3: "\<exists>p. pos a = Some p \<and> \<not> out_of_bounds (grid m) p \<and> unique_id a \<in> cells (grid m) p
            \<and> (\<forall>q. unique_id a \<in> cells (grid m) q \<longrightarrow> q = p)"
    if a: "a \<in> set (agents m)" for a
  proof -
    obtain p where p: "pos a = Some p" using placed a by auto
    have "unique_id a \<in> cells (grid m) q \<longleftrightarrow> pos a = Some q" for q
      using gc a unfolding grid_consistent_def by blast
    moreover have "\<not> out_of_bounds (grid m) p"
      using gc a p unfolding grid_consistent_def by blast
    ultimately show ?thesis using p by auto
  qed
  have 4: "\<exists>a \<in> set (agents m). unique_id a = k \<and> pos a = Some q" if k: "k \<in> cells (grid m) q" for k q
  proof -
    have "k \<in> unique_id ` set (agents m)"
      using gc k unfolding grid_consistent_def by blast
    then obtain a where a: "a \<in> set (agents m)" "unique_id a = k"
      by auto
    have "unique_id a \<in> cells (grid m) q \<longleftrightarrow> pos a = Some q"
      using gc a(1) unfolding grid_consistent_def by blast
    then show ?thesis using a k by blast
  qed
  show ?thesis
    using r(1) 1 2 3 4 by blast
qed

theorem grid_consistency_witness:
  "shuffle_ok scripted \<and> list_all (\<lambda>p. 0 \<le> p \<and> p \<le> (1::real)) [1/10, 9/10]
   \<and> (\<exists>m0 g0. TravelModel_init scripted 2 [1/10, 9/10] 10 10 [0, 1, 0, 1, 1, 0, 1, 7, 0]
                 = Inr (m0, g0)
         \<and> (\<exists>orders m g'. TravelModel_run scripted 2 m0 g0 = Inr ((orders, m), g')
               \<and> set (map unique_id (agents m)) = {0..<2}
               \<and> (\<forall>a \<in> set (agents m). \<exists>p. pos a = Some p \<and> unique_id a \<in> cells (grid m) p
                      \<and> (\<forall>q. unique_id a \<in> cells (grid m) q \<longrightarrow> q = p))))"
proof -
  have p: "\<forall>p \<in> set [1/10, 9/10]. 0 \<le> p \<and> p \<le> (1::real)"
    by simp
  have "\<not> isl (TravelModel_init scripted 2 [1/10, 9/10] 10 10 [0, 1, 0, 1, 1, 0, 1, 7, 0])"
    by code_simp
  then obtain m0 g0 where
    h: "TravelModel_init scripted 2 [1/10, 9/10] 10 10 [0, 1, 0, 1, 1, 0, 1, 7, 0] = Inr (m0, g0)"
    by (cases "TravelModel_init scripted 2 [1/10, 9/10] 10 10 [0, 1, 0, 1, 1, 0, 1, 7, 0]") auto
  from grid_consistency [OF scripted_shuffle_ok p h, of 2]
  obtain orders m g' where r: "TravelModel_run scripted 2 m0 g0 = Inr ((orders, m), g')"
    "set (map unique_id (agents m)) = {0..<2}"
    "\<forall>a \<in> set (agents m). \<exists>p. pos a = Some p \<and> \<not> out_of_bounds (grid m) p
        \<and> unique_id a \<in> cells (grid m) p
        \<and> (\<forall>q. unique_id a \<in> cells (grid m) q \<longrightarrow> q = p)"
    by blast
  have "\<forall>a \<in> set (agents m). \<exists>p. pos a = Some p \<and> unique_id a \<in> cells (grid m) p
        \<and> (\<forall>q. unique_id a \<in> cells (grid m) q \<longrightarrow> q = p)"
    using r(3) by blast
  then have "\<exists>orders m g'. TravelModel_run scripted 2 m0 g0 = Inr ((orders, m), g')
      \<and> set (map unique_id (agents m)) = {0..<2}
      \<and> (\<forall>a \<in> set (agents m). \<exists>p. pos a = Some p \<and> unique_id a \<in> cells (grid m) p
             \<and> (\<forall>q. unique_id a \<in> cells (grid m) q \<longrightarrow> q = p))"
    using r(1,2) by blast
  then show ?thesis
    using scripted_shuffle_ok h by auto
qed

section \<open>The random-walk model: one activation\<close>






section \<open>Reproducible runs\<close>

lemma same_outcomeE:
  assumes "same_outcome R r r'"
  obtains (raised) e where "r = Inl e" "r' = Inl e"
    | (returned) x g h where "r = Inr (x, g)" "r' = Inr (x, h)" "R g h"
proof (cases r)
  case (Inl e)
  then show ?thesis using assms raised by (simp add: same_outcome_def)
next
  case (Inr xg)
  obtain x g where xg: "xg = (x, g)" by (cases xg)
  show ?thesis
  proof (cases r')
    case (Inl e')
    then show ?thesis using assms Inr xg by (simp add: same_outcome_def)
  next
    case r': (Inr yh)
    obtain y h where yh: "yh = (y, h)" by (cases yh)
    show ?thesis
      using assms Inr xg r' yh returned [of x g h] by (simp add: same_outcome_def)
  qed
qed

lemma same_outcome_Inl [simp]: "same_outcome R (Inl e) (Inl e') \<longleftrightarrow> e = e'"
  by (auto simp: same_outcome_def)

lemma same_outcome_Inr [simp]: "same_outcome R (Inr (x, g)) (Inr (y, h)) \<longleftrightarrow> x = y \<and> R g h"
  by (auto simp: same_outcome_def)

lemma same_np_random_binomial:
  assumes "same_draws S T R" and "R g h"
  shows "same_outcome R (np_random_binomial S n p g) (np_random_binomial T n p h)"
proof -
  have "fst (np_binomial S n p g) = fst (np_binomial T n p h)"
      "R (snd (np_binomial S n p g)) (snd (np_binomial T n p h))"
    using assms unfolding same_draws_def by blast+
  then show ?thesis
    by (cases "np_binomial S n p g"; cases "np_binomial T n p h")
       (simp add: np_random_binomial_def)
qed

lemma same_random_shuffle:
  assumes "same_draws S T R" and "R g h"
  shows "fst (random_shuffle S xs g) = fst (random_shuffle T xs h)
     \<and> R (snd (random_shuffle S xs g)) (snd (random_shuffle T xs h))"
proof -
  have "fst (py_shuffle S (length xs) g) = fst (py_shuffle T (length xs) h)"
      "R (snd (py_shuffle S (length xs) g)) (snd (py_shuffle T (length xs) h))"
    using assms unfolding same_draws_def by blast+
  then show ?thesis
    by (simp add: random_shuffle_def case_prod_beta)
qed

lemma same_random_choice:
  assumes "same_draws S T R" and "R g h"
  shows "same_outcome R (random_choice S xs g) (random_choice T xs h)"
proof -
  have "fst (py_choice S xs g) = fst (py_choice T xs h)"
      "R (snd (py_choice S xs g)) (snd (py_choice T xs h))"
    using assms unfolding same_draws_def by blast+
  then show ?thesis
    by (cases "py_choice S xs g"; cases "py_choice T xs h") (simp add: random_choice_def)
qed

lemma same_StockPredictor_step:
  assumes "same_draws S T R" and "R g h"
  shows "same_outcome R (StockPredictor_step S m a g) (StockPredictor_step T m a h)"
  using same_np_random_binomial [OF assms, of 1 "1/2"]
  by (elim same_outcomeE) (simp_all add: StockPredictor_step_def)

lemma same_activate_all:
  assumes "same_draws S T R"
  shows "R g h \<Longrightarrow> same_outcome R (activate_all S m as g) (activate_all T m as h)"
proof (induction as arbitrary: g h)
  case Nil
  then show ?case by simp
next
  case (Cons a as)
  from same_StockPredictor_step [OF assms Cons.prems, of m a] show ?case
  proof (cases rule: same_outcomeE)
    case (raised e)
    then show ?thesis by simp
  next
    case (returned a' g1 h1)
    from Cons.IH [OF returned(3)] show ?thesis
      by (elim same_outcomeE) (simp_all add: returned)
  qed
qed

lemma same_schedule_step:
  assumes "same_draws S T R" and "R g h"
  shows "same_outcome R (schedule_step S m g) (schedule_step T m h)"
proof -
  note s = same_random_shuffle [OF assms, of "agents m"]
  from same_activate_all [OF assms(1) conjunct2 [OF s], of m "fst (random_shuffle S (agents m) g)"]
  show ?thesis
    using conjunct1 [OF s]
    by (elim same_outcomeE) (simp_all add: schedule_step_def case_prod_beta)
qed

lemma same_activated:
  assumes "same_draws S T R" and "R g h"
  shows "same_outcome R (activated S m g) (activated T m h)"
  using same_np_random_binomial [OF assms, of 1 "1/2"]
proof (cases rule: same_outcomeE)
  case (raised e)
  then show ?thesis by (simp add: activated_def)
next
  case (returned outcome g1 h1)
  then show ?thesis
    using same_schedule_step [OF assms(1) returned(3)] by (simp add: activated_def)
qed

lemma same_StockPredicterModel_step:
  assumes "same_draws S T R" and "R g h"
  shows "same_outcome R (StockPredicterModel_step S m g) (StockPredicterModel_step T m h)"
  using same_activated [OF assms, of m]
  by (elim same_outcomeE) (simp_all add: StockPredicterModel_step_def split: sum.splits)

lemma same_StockPredicterModel_run:
  assumes "same_draws S T R"
  shows "R g h \<Longrightarrow>
    same_outcome R (StockPredicterModel_run S n m g) (StockPredicterModel_run T n m h)"
proof (induction n arbitrary: m g h)
  case 0
  then show ?case by simp
next
  case (Suc n)
  from same_StockPredicterModel_step [OF assms Suc.prems, of m] show ?case
  proof (cases rule: same_outcomeE)
    case (raised e)
    then show ?thesis by simp
  next
    case (returned m' g1 h1)
    from Suc.IH [OF returned(3), of m'] show ?thesis
      by (elim same_outcomeE) (auto simp: returned)
  qed
qed

lemma same_travel:
  assumes "same_draws S T R" and "R g h"
  shows "same_outcome R (travel S m i g) (travel T m i h)"
proof (cases "pos (agents m ! i)")
  case None
  then show ?thesis by (simp add: travel_def)
next
  case (Some p)
  from same_random_choice [OF assms, of "get_neighborhood (grid m) p True False"]
  show ?thesis
    by (elim same_outcomeE) (simp_all add: travel_def Some split: sum.splits prod.splits)
qed

lemma same_Traveler_step:
  assumes "same_draws S T R" and "R g h"
  shows "same_outcome R (Traveler_step S m i g) (Traveler_step T m i h)"
  using same_np_random_binomial [OF assms, of 1 "travel_prob (agents m ! i)"]
proof (cases rule: same_outcomeE)
  case (raised e)
  then show ?thesis by (simp add: Traveler_step_def move_def)
next
  case (returned b g1 h1)
  then show ?thesis
    using same_travel [OF assms(1) returned(3)] by (simp add: Traveler_step_def move_def)
qed

lemma same_activate_travelers:
  assumes "same_draws S T R"
  shows "R g h \<Longrightarrow> same_outcome R (activate_travelers S is m g) (activate_travelers T is m h)"
proof (induction "is" arbitrary: m g h)
  case Nil
  then show ?case by simp
next
  case (Cons i "is")
  from same_Traveler_step [OF assms Cons.prems, of m i] show ?case
  proof (cases rule: same_outcomeE)
    case (raised e)
    then show ?thesis by simp
  next
    case (returned m' g1 h1)
    then show ?thesis using Cons.IH [OF returned(3), of m'] by simp
  qed
qed

lemma same_TravelModel_step:
  assumes "same_draws S T R" and "R g h"
  shows "same_outcome R (TravelModel_step S m g) (TravelModel_step T m h)"
proof -
  note s = same_random_shuffle [OF assms, of "agents m"]
  show ?thesis
    using same_activate_travelers [OF assms(1) conjunct2 [OF s]] conjunct1 [OF s]
    by (simp add: TravelModel_step_def case_prod_beta)
qed

lemma same_TravelModel_run:
  assumes "same_draws S T R"
  shows "R g h \<Longrightarrow> same_outcome R (TravelModel_run S n m g) (TravelModel_run T n m h)"
proof (induction n arbitrary: m g h)
  case 0
  then show ?case by simp
next
  case (Suc n)
  from same_TravelModel_step [OF assms Suc.prems, of m] show ?case
  proof (cases rule: same_outcomeE)
    case (raised e)
    then show ?thesis by simp
  next
    case (returned m' g1 h1)
    from Suc.IH [OF returned(3), of m'] show ?thesis
      by (elim same_outcomeE) (auto simp: returned)
  qed
qed

lemma same_draws_scripted_counting: "same_draws scripted counting (\<lambda>g h. g = fst h)"
  by (simp add: same_draws_def counting_def)

text \<open>One source, started twice from one generator state, is seeded alike with itself.\<close>

lemma same_draws_refl: "same_draws S S (=)"
  by (simp add: same_draws_def)

text \<open>
  Claim C6. Two runs of \<open>n\<close> steps from the same initial agents, under variate sources that
  are seeded alike (\<open>same_draws\<close>, with the generator states related at the start; in
  particular one source started twice from the state of one seed), do not differ, for the
  stock-predictor model and for the random-walk model: either both raise the same
  exception, or both return the same sequence of activation orders and the same final
  model, that is the same agents with the same earnings and guesses, or positions and
  travel probabilities, and the generator states are related again.
\<close>

theorem runs_reproducible:
  assumes "same_draws S T R" and "R g h"
  shows "same_outcome R (StockPredicterModel_run S n m g) (StockPredicterModel_run T n m h)
     \<and> same_outcome R (TravelModel_run S n tm g) (TravelModel_run T n tm h)"
  using same_StockPredicterModel_run [OF assms] same_TravelModel_run [OF assms] by simp

theorem runs_reproducible_witness:
  "same_draws scripted counting (\<lambda>g h. g = fst h) \<and> [1, 1, 1, 0, 0, 1, 7] = fst ([1, 1, 1, 0, 0, 1, 7], 0::nat)
   \<and> same_outcome (\<lambda>g h. g = fst h)
        (StockPredicterModel_run scripted 2 (StockPredicterModel_init 4) [1, 1, 1, 0, 0, 1, 7])
        (StockPredicterModel_run counting 2 (StockPredicterModel_init 4) ([1, 1, 1, 0, 0, 1, 7], 0))
   \<and> same_outcome (\<lambda>g h. g = fst h)
        (TravelModel_run scripted 2 scenario_A [1, 1, 1, 0, 0, 1, 7])
        (TravelModel_run counting 2 scenario_A ([1, 1, 1, 0, 0, 1, 7], 0))"
proof -
  have r: "[1, 1, 1, 0, 0, 1, 7] = fst ([1, 1, 1, 0, 0, 1, 7], 0::nat)"
    by simp
  from runs_reproducible [OF same_draws_scripted_counting r, of 2 "StockPredicterModel_init 4" scenario_A]
  show ?thesis
    using same_draws_scripted_counting by simp
qed

end
